theory Spec2Isabelle
  imports Main "HOL-Library.Word"
begin

section \<open>Data model of the HAL plug-in\<close>

text \<open>
  The plug-in is C++ over fixed-width integers. \<open>UInt32\<close> and \<open>UInt64\<close> are words, so
  \<open>+\<close>, \<open>-\<close> and \<open>*\<close> wrap around as in the source. The code never computes with a
  sample: it only copies \<open>Float32\<close> values and stores the constant \<open>0.0f\<close>. A sample
  is therefore modelled by its IEEE-754 bit pattern, in which \<open>0.0f\<close> is the word 0;
  \<open>Float64\<close> likewise.
\<close>

type_synonym UInt32 = "32 word"
type_synonym UInt64 = "64 word"
type_synonym Float32 = "32 word"
type_synonym Float64 = "64 word"
type_synonym OSStatus = "32 word"

text \<open>
  What C leaves undefined is a value of the model: an access outside the array an
  index or a pointer refers to, and a remainder by zero.
\<close>

datatype fault = OutOfBounds | DivisionByZero

text \<open>
  The struct \<open>EchoRingBuffer\<close> of EchoHalPlugin.h. The field \<open>size\<close> is called
  \<open>size_rb\<close> here; \<open>buffer\<close> is the heap array the pointer refers to. The mutex
  \<open>lock\<close> is held from the first to the last statement of Write and of Read, so
  each of them is one atomic step of the model and the lock has no field.
  The struct \<open>EngramRingBuffer\<close> of EngramHalPlugin.h has the same fields with the
  same types in the same order.
\<close>

record RingBuffer =
  buffer :: "Float32 list"
  size_rb :: UInt32
  writeIndex :: UInt32
  readIndex :: UInt32

type_synonym EchoRingBuffer = RingBuffer
type_synonym EngramRingBuffer = RingBuffer

section \<open>Ring buffer (EchoHalPlugin.cpp)\<close>

text \<open>
  Init stores what \<open>calloc\<close> returns and does not look at it. Whether the
  allocation succeeds is not decided by the program, so the result of \<open>calloc\<close> is
  the argument \<open>mem\<close>: \<open>None\<close> is NULL and \<open>Some block\<close> is a pointer to
  \<open>block\<close>. A NULL \<open>buffer\<close> is the array with no slot, so every access through
  it is out of bounds.
\<close>

definition EchoRingBuffer_Init :: "Float32 list option \<Rightarrow> UInt32 \<Rightarrow> EchoRingBuffer" where
  "EchoRingBuffer_Init mem sz =
     \<lparr>buffer = (case mem of None \<Rightarrow> [] | Some block \<Rightarrow> block),
      size_rb = sz, writeIndex = 0, readIndex = 0\<rparr>"

definition EchoRingBuffer_GetAvailableRead :: "EchoRingBuffer \<Rightarrow> UInt32" where
  "EchoRingBuffer_GetAvailableRead rb =
     (let w = writeIndex rb; r = readIndex rb
      in if w \<ge> r then w - r else size_rb rb - r + w)"

definition EchoRingBuffer_GetAvailableWrite :: "EchoRingBuffer \<Rightarrow> UInt32" where
  "EchoRingBuffer_GetAvailableWrite rb =
     size_rb rb - EchoRingBuffer_GetAvailableRead rb - 1"

text \<open>
  The copy loop of Write, entered with the counter \<open>i\<close>:
  \<^verbatim>\<open>for (UInt32 i = 0; i < toWrite; i++) {
      rb->buffer[rb->writeIndex] = data[i];
      rb->writeIndex = (rb->writeIndex + 1) % rb->size; }\<close>
  \<open>data\<close> is the caller's array.
\<close>

function EchoRingBuffer_Write_loop ::
  "EchoRingBuffer \<Rightarrow> Float32 list \<Rightarrow> UInt32 \<Rightarrow> UInt32 \<Rightarrow> fault + EchoRingBuffer" where
  "EchoRingBuffer_Write_loop rb data i toWrite =
     (if i < toWrite then
        (if length (buffer rb) \<le> unat (writeIndex rb) \<or> length data \<le> unat i
         then Inl OutOfBounds
         else if size_rb rb = 0 then Inl DivisionByZero
         else EchoRingBuffer_Write_loop
                (rb\<lparr>buffer := (buffer rb)[unat (writeIndex rb) := data ! unat i],
                    writeIndex := (writeIndex rb + 1) mod size_rb rb\<rparr>)
                data (i + 1) toWrite)
      else Inr rb)"
  by pat_completeness auto
termination
proof (relation "measure (\<lambda>(rb, data, i, toWrite). unat toWrite - unat i)")
  show "wf (measure (\<lambda>(rb, data, i, toWrite). unat toWrite - unat i))"
    by simp
next
  fix rb :: EchoRingBuffer and data :: "Float32 list" and i toWrite :: UInt32
  assume "i < toWrite"
  then have "unat (i + 1) = Suc (unat i)"
    by unat_arith
  with \<open>i < toWrite\<close> show "((rb\<lparr>buffer := (buffer rb)[unat (writeIndex rb) := data ! unat i],
                    writeIndex := (writeIndex rb + 1) mod size_rb rb\<rparr>, data, i + 1, toWrite),
          (rb, data, i, toWrite)) \<in> measure (\<lambda>(rb, data, i, toWrite). unat toWrite - unat i)"
    by (simp add: word_less_nat_alt)
qed

declare EchoRingBuffer_Write_loop.simps [simp del]

definition EchoRingBuffer_Write ::
  "EchoRingBuffer \<Rightarrow> Float32 list \<Rightarrow> UInt32 \<Rightarrow> fault + (EchoRingBuffer \<times> UInt32)" where
  "EchoRingBuffer_Write rb data frames =
     (let available = EchoRingBuffer_GetAvailableWrite rb;
          toWrite = (if frames < available then frames else available)
      in case EchoRingBuffer_Write_loop rb data 0 toWrite of
           Inl e \<Rightarrow> Inl e
         | Inr rb' \<Rightarrow> Inr (rb', toWrite))"

text \<open>
  The copy loop of Read; \<open>data\<close> is the caller's output array:
  \<^verbatim>\<open>for (UInt32 i = 0; i < toRead; i++) {
      data[i] = rb->buffer[rb->readIndex];
      rb->readIndex = (rb->readIndex + 1) % rb->size; }\<close>
\<close>

function EchoRingBuffer_Read_loop ::
  "EchoRingBuffer \<Rightarrow> Float32 list \<Rightarrow> UInt32 \<Rightarrow> UInt32
     \<Rightarrow> fault + (EchoRingBuffer \<times> Float32 list)" where
  "EchoRingBuffer_Read_loop rb data i toRead =
     (if i < toRead then
        (if length (buffer rb) \<le> unat (readIndex rb) \<or> length data \<le> unat i
         then Inl OutOfBounds
         else if size_rb rb = 0 then Inl DivisionByZero
         else EchoRingBuffer_Read_loop
                (rb\<lparr>readIndex := (readIndex rb + 1) mod size_rb rb\<rparr>)
                (data[unat i := buffer rb ! unat (readIndex rb)]) (i + 1) toRead)
      else Inr (rb, data))"
  by pat_completeness auto
termination
proof (relation "measure (\<lambda>(rb, data, i, toRead). unat toRead - unat i)")
  show "wf (measure (\<lambda>(rb, data, i, toRead). unat toRead - unat i))"
    by simp
next
  fix rb :: EchoRingBuffer and data :: "Float32 list" and i toRead :: UInt32
  assume "i < toRead"
  then have "unat (i + 1) = Suc (unat i)"
    by unat_arith
  with \<open>i < toRead\<close> show "((rb\<lparr>readIndex := (readIndex rb + 1) mod size_rb rb\<rparr>,
           data[unat i := buffer rb ! unat (readIndex rb)], i + 1, toRead),
          (rb, data, i, toRead)) \<in> measure (\<lambda>(rb, data, i, toRead). unat toRead - unat i)"
    by (simp add: word_less_nat_alt)
qed

declare EchoRingBuffer_Read_loop.simps [simp del]

text \<open>
  The zero-fill loop of Read:
  \<^verbatim>\<open>for (UInt32 i = toRead; i < frames; i++) { data[i] = 0.0f; }\<close>
\<close>

function EchoRingBuffer_Read_zero_fill ::
  "Float32 list \<Rightarrow> UInt32 \<Rightarrow> UInt32 \<Rightarrow> fault + Float32 list" where
  "EchoRingBuffer_Read_zero_fill data i frames =
     (if i < frames then
        (if length data \<le> unat i then Inl OutOfBounds
         else EchoRingBuffer_Read_zero_fill (data[unat i := 0]) (i + 1) frames)
      else Inr data)"
  by pat_completeness auto
termination
proof (relation "measure (\<lambda>(data, i, frames). unat frames - unat i)")
  show "wf (measure (\<lambda>(data, i, frames). unat frames - unat i))"
    by simp
next
  fix data :: "Float32 list" and i frames :: UInt32
  assume "i < frames"
  then have "unat (i + 1) = Suc (unat i)"
    by unat_arith
  with \<open>i < frames\<close> show "((data[unat i := 0], i + 1, frames), (data, i, frames))
          \<in> measure (\<lambda>(data, i, frames). unat frames - unat i)"
    by (simp add: word_less_nat_alt)
qed

declare EchoRingBuffer_Read_zero_fill.simps [simp del]

definition EchoRingBuffer_Read ::
  "EchoRingBuffer \<Rightarrow> Float32 list \<Rightarrow> UInt32
     \<Rightarrow> fault + (EchoRingBuffer \<times> Float32 list \<times> UInt32)" where
  "EchoRingBuffer_Read rb data frames =
     (let available = EchoRingBuffer_GetAvailableRead rb;
          toRead = (if frames < available then frames else available)
      in case EchoRingBuffer_Read_loop rb data 0 toRead of
           Inl e \<Rightarrow> Inl e
         | Inr (rb', data') \<Rightarrow>
             (case EchoRingBuffer_Read_zero_fill data' toRead frames of
                Inl e \<Rightarrow> Inl e
              | Inr data'' \<Rightarrow> Inr (rb', data'', toRead)))"

section \<open>Ring buffer (EngramHalPlugin.cpp)\<close>

text \<open>
  The second plug-in has its own copy of the ring buffer, translated here from
  EngramHalPlugin.cpp line by line, in the same way as the first.
\<close>

definition EngramRingBuffer_Init :: "Float32 list option \<Rightarrow> UInt32 \<Rightarrow> EngramRingBuffer" where
  "EngramRingBuffer_Init mem sz =
     \<lparr>buffer = (case mem of None \<Rightarrow> [] | Some block \<Rightarrow> block),
      size_rb = sz, writeIndex = 0, readIndex = 0\<rparr>"

definition EngramRingBuffer_GetAvailableRead :: "EngramRingBuffer \<Rightarrow> UInt32" where
  "EngramRingBuffer_GetAvailableRead rb =
     (let w = writeIndex rb; r = readIndex rb
      in if w \<ge> r then w - r else size_rb rb - r + w)"

definition EngramRingBuffer_GetAvailableWrite :: "EngramRingBuffer \<Rightarrow> UInt32" where
  "EngramRingBuffer_GetAvailableWrite rb =
     size_rb rb - EngramRingBuffer_GetAvailableRead rb - 1"

text \<open>The copy loop of \<open>EngramRingBuffer_Write\<close>.\<close>

function EngramRingBuffer_Write_loop ::
  "EngramRingBuffer \<Rightarrow> Float32 list \<Rightarrow> UInt32 \<Rightarrow> UInt32 \<Rightarrow> fault + EngramRingBuffer" where
  "EngramRingBuffer_Write_loop rb data i toWrite =
     (if i < toWrite then
        (if length (buffer rb) \<le> unat (writeIndex rb) \<or> length data \<le> unat i
         then Inl OutOfBounds
         else if size_rb rb = 0 then Inl DivisionByZero
         else EngramRingBuffer_Write_loop
                (rb\<lparr>buffer := (buffer rb)[unat (writeIndex rb) := data ! unat i],
                    writeIndex := (writeIndex rb + 1) mod size_rb rb\<rparr>)
                data (i + 1) toWrite)
      else Inr rb)"
  by pat_completeness auto
termination
proof (relation "measure (\<lambda>(rb, data, i, toWrite). unat toWrite - unat i)")
  show "wf (measure (\<lambda>(rb, data, i, toWrite). unat toWrite - unat i))"
    by simp
next
  fix rb :: EngramRingBuffer and data :: "Float32 list" and i toWrite :: UInt32
  assume "i < toWrite"
  then have "unat (i + 1) = Suc (unat i)"
    by unat_arith
  with \<open>i < toWrite\<close> show "((rb\<lparr>buffer := (buffer rb)[unat (writeIndex rb) := data ! unat i],
                    writeIndex := (writeIndex rb + 1) mod size_rb rb\<rparr>, data, i + 1, toWrite),
          (rb, data, i, toWrite)) \<in> measure (\<lambda>(rb, data, i, toWrite). unat toWrite - unat i)"
    by (simp add: word_less_nat_alt)
qed

declare EngramRingBuffer_Write_loop.simps [simp del]

definition EngramRingBuffer_Write ::
  "EngramRingBuffer \<Rightarrow> Float32 list \<Rightarrow> UInt32 \<Rightarrow> fault + (EngramRingBuffer \<times> UInt32)" where
  "EngramRingBuffer_Write rb data frames =
     (let available = EngramRingBuffer_GetAvailableWrite rb;
          toWrite = (if frames < available then frames else available)
      in case EngramRingBuffer_Write_loop rb data 0 toWrite of
           Inl e \<Rightarrow> Inl e
         | Inr rb' \<Rightarrow> Inr (rb', toWrite))"

text \<open>The copy loop of \<open>EngramRingBuffer_Read\<close>.\<close>

function EngramRingBuffer_Read_loop ::
  "EngramRingBuffer \<Rightarrow> Float32 list \<Rightarrow> UInt32 \<Rightarrow> UInt32
     \<Rightarrow> fault + (EngramRingBuffer \<times> Float32 list)" where
  "EngramRingBuffer_Read_loop rb data i toRead =
     (if i < toRead then
        (if length (buffer rb) \<le> unat (readIndex rb) \<or> length data \<le> unat i
         then Inl OutOfBounds
         else if size_rb rb = 0 then Inl DivisionByZero
         else EngramRingBuffer_Read_loop
                (rb\<lparr>readIndex := (readIndex rb + 1) mod size_rb rb\<rparr>)
                (data[unat i := buffer rb ! unat (readIndex rb)]) (i + 1) toRead)
      else Inr (rb, data))"
  by pat_completeness auto
termination
proof (relation "measure (\<lambda>(rb, data, i, toRead). unat toRead - unat i)")
  show "wf (measure (\<lambda>(rb, data, i, toRead). unat toRead - unat i))"
    by simp
next
  fix rb :: EngramRingBuffer and data :: "Float32 list" and i toRead :: UInt32
  assume "i < toRead"
  then have "unat (i + 1) = Suc (unat i)"
    by unat_arith
  with \<open>i < toRead\<close> show "((rb\<lparr>readIndex := (readIndex rb + 1) mod size_rb rb\<rparr>,
           data[unat i := buffer rb ! unat (readIndex rb)], i + 1, toRead),
          (rb, data, i, toRead)) \<in> measure (\<lambda>(rb, data, i, toRead). unat toRead - unat i)"
    by (simp add: word_less_nat_alt)
qed

declare EngramRingBuffer_Read_loop.simps [simp del]

text \<open>The zero-fill loop of \<open>EngramRingBuffer_Read\<close>.\<close>

function EngramRingBuffer_Read_zero_fill ::
  "Float32 list \<Rightarrow> UInt32 \<Rightarrow> UInt32 \<Rightarrow> fault + Float32 list" where
  "EngramRingBuffer_Read_zero_fill data i frames =
     (if i < frames then
        (if length data \<le> unat i then Inl OutOfBounds
         else EngramRingBuffer_Read_zero_fill (data[unat i := 0]) (i + 1) frames)
      else Inr data)"
  by pat_completeness auto
termination
proof (relation "measure (\<lambda>(data, i, frames). unat frames - unat i)")
  show "wf (measure (\<lambda>(data, i, frames). unat frames - unat i))"
    by simp
next
  fix data :: "Float32 list" and i frames :: UInt32
  assume "i < frames"
  then have "unat (i + 1) = Suc (unat i)"
    by unat_arith
  with \<open>i < frames\<close> show "((data[unat i := 0], i + 1, frames), (data, i, frames))
          \<in> measure (\<lambda>(data, i, frames). unat frames - unat i)"
    by (simp add: word_less_nat_alt)
qed

declare EngramRingBuffer_Read_zero_fill.simps [simp del]

definition EngramRingBuffer_Read ::
  "EngramRingBuffer \<Rightarrow> Float32 list \<Rightarrow> UInt32
     \<Rightarrow> fault + (EngramRingBuffer \<times> Float32 list \<times> UInt32)" where
  "EngramRingBuffer_Read rb data frames =
     (let available = EngramRingBuffer_GetAvailableRead rb;
          toRead = (if frames < available then frames else available)
      in case EngramRingBuffer_Read_loop rb data 0 toRead of
           Inl e \<Rightarrow> Inl e
         | Inr (rb', data') \<Rightarrow>
             (case EngramRingBuffer_Read_zero_fill data' toRead frames of
                Inl e \<Rightarrow> Inl e
              | Inr data'' \<Rightarrow> Inr (rb', data'', toRead)))"

section \<open>Device state and IO operations (EchoHalPlugin.cpp)\<close>

text \<open>
  The struct \<open>EchoDevice\<close>; \<open>AudioObjectID\<close> is a \<open>UInt32\<close>. The mutex
  \<open>stateLock\<close> has no field, for the reason given for the ring buffer's lock.
\<close>

record EchoDevice =
  objectID :: UInt32
  inputStreamID :: UInt32
  outputStreamID :: UInt32
  sampleRate :: Float64
  channels :: UInt32
  ringBuffer :: EchoRingBuffer
  isRunning :: bool
  hostTicksPerFrame :: UInt64
  anchorHostTime :: UInt64

text \<open>
  Two constants of the CoreAudio headers: \<open>kAudioHardwareNoError\<close> is 0 and
  \<open>kAudioServerPlugInIOOperationReadInput\<close> is the four-character code \<open>'read'\<close>.
\<close>

definition kAudioHardwareNoError :: OSStatus where
  "kAudioHardwareNoError = 0"

definition kAudioServerPlugInIOOperationReadInput :: UInt32 where
  "kAudioServerPlugInIOOperationReadInput = 0x72656164"

text \<open>
  The callbacks act on the global \<open>gDevice\<close>, which the model passes in and hands
  back. The parameters \<open>driver\<close>, \<open>deviceObjectID\<close>, \<open>streamObjectID\<close>,
  \<open>clientID\<close>, \<open>ioCycleInfo\<close> and \<open>ioSecondaryBuffer\<close> are not read by any
  of them and are left out, as is the line each of StartIO and StopIO prints. The reading
  of \<open>mach_absolute_time()\<close> is the argument \<open>now\<close>.
\<close>

definition EchoDevice_StartIO :: "EchoDevice \<Rightarrow> UInt64 \<Rightarrow> EchoDevice \<times> OSStatus" where
  "EchoDevice_StartIO dev now =
     (dev\<lparr>isRunning := True, anchorHostTime := now\<rparr>, kAudioHardwareNoError)"

definition EchoDevice_StopIO :: "EchoDevice \<Rightarrow> EchoDevice \<times> OSStatus" where
  "EchoDevice_StopIO dev = (dev\<lparr>isRunning := False\<rparr>, kAudioHardwareNoError)"

text \<open>The results are \<open>outSampleTime\<close>, \<open>outHostTime\<close>, \<open>outSeed\<close> and the status.\<close>

definition EchoDevice_GetZeroTimeStamp ::
  "EchoDevice \<Rightarrow> Float64 \<times> UInt64 \<times> UInt64 \<times> OSStatus" where
  "EchoDevice_GetZeroTimeStamp dev = (0, anchorHostTime dev, 1, kAudioHardwareNoError)"

text \<open>The results are \<open>outWillDo\<close>, \<open>outWillDoInPlace\<close> and the status.\<close>

definition EchoDevice_WillDoIOOperation :: "UInt32 \<Rightarrow> bool \<times> bool \<times> OSStatus" where
  "EchoDevice_WillDoIOOperation operationID =
     (operationID = kAudioServerPlugInIOOperationReadInput, True, kAudioHardwareNoError)"

definition EchoDevice_BeginIOOperation :: "UInt32 \<Rightarrow> UInt32 \<Rightarrow> OSStatus" where
  "EchoDevice_BeginIOOperation operationID ioBufferFrameSize = kAudioHardwareNoError"

text \<open>
  \<open>ioMainBuffer\<close> is the host's array of samples; the count Read returns is dropped,
  as in the source.
\<close>

definition EchoDevice_DoIOOperation ::
  "EchoDevice \<Rightarrow> UInt32 \<Rightarrow> UInt32 \<Rightarrow> Float32 list
     \<Rightarrow> fault + (EchoDevice \<times> Float32 list \<times> OSStatus)" where
  "EchoDevice_DoIOOperation dev operationID ioBufferFrameSize ioMainBuffer =
     (if operationID = kAudioServerPlugInIOOperationReadInput then
        (case EchoRingBuffer_Read (ringBuffer dev) ioMainBuffer
                (ioBufferFrameSize * channels dev) of
           Inl e \<Rightarrow> Inl e
         | Inr (rb', buffer', n) \<Rightarrow>
             Inr (dev\<lparr>ringBuffer := rb'\<rparr>, buffer', kAudioHardwareNoError))
      else Inr (dev, ioMainBuffer, kAudioHardwareNoError))"

definition EchoDevice_EndIOOperation :: "UInt32 \<Rightarrow> UInt32 \<Rightarrow> OSStatus" where
  "EchoDevice_EndIOOperation operationID ioBufferFrameSize = kAudioHardwareNoError"

section \<open>Specification vocabulary\<close>

text \<open>
  What \<open>calloc (n, sizeof (Float32))\<close> returns when the allocation succeeds: a
  pointer to \<open>n\<close> samples, all zero.
\<close>

definition calloc_succeeded :: "Float32 list option \<Rightarrow> UInt32 \<Rightarrow> bool" where
  "calloc_succeeded mem n \<longleftrightarrow> mem = Some (replicate (unat n) 0)"

text \<open>
  The cursor invariant of the data model: the storage has \<open>capacity\<close> slots and both
  cursors lie in \<open>[0, capacity)\<close>; the capacity is then positive.
\<close>

definition rb_inv :: "RingBuffer \<Rightarrow> bool" where
  "rb_inv rb \<longleftrightarrow>
     length (buffer rb) = unat (size_rb rb) \<and>
     writeIndex rb < size_rb rb \<and> readIndex rb < size_rb rb"

text \<open>
  The samples a buffer holds, oldest first: the slots from \<open>readIndex\<close> on, as many
  as GetAvailableRead counts.
\<close>

definition ring_contents :: "RingBuffer \<Rightarrow> Float32 list" where
  "ring_contents rb =
     map (\<lambda>k. buffer rb ! ((unat (readIndex rb) + k) mod unat (size_rb rb)))
       [0..<unat (EchoRingBuffer_GetAvailableRead rb)]"

text \<open>
  A sequence of calls on one ring buffer. A call carries the caller's array and the
  count it passes; the call keeps the contract of the C signature when the array has
  at least that many elements.
\<close>

datatype rb_call = CallWrite "Float32 list" UInt32 | CallRead "Float32 list" UInt32

fun rb_call_ok :: "rb_call \<Rightarrow> bool" where
  "rb_call_ok (CallWrite data frames) = (unat frames \<le> length data)"
| "rb_call_ok (CallRead data frames) = (unat frames \<le> length data)"

fun rb_step :: "RingBuffer \<Rightarrow> rb_call \<Rightarrow> fault + RingBuffer" where
  "rb_step rb (CallWrite data frames) =
     (case EchoRingBuffer_Write rb data frames of
        Inl e \<Rightarrow> Inl e | Inr (rb', n) \<Rightarrow> Inr rb')"
| "rb_step rb (CallRead data frames) =
     (case EchoRingBuffer_Read rb data frames of
        Inl e \<Rightarrow> Inl e | Inr (rb', data', n) \<Rightarrow> Inr rb')"

fun rb_run :: "RingBuffer \<Rightarrow> rb_call list \<Rightarrow> fault + RingBuffer" where
  "rb_run rb [] = Inr rb"
| "rb_run rb (c # cs) =
     (case rb_step rb c of Inl e \<Rightarrow> Inl e | Inr rb' \<Rightarrow> rb_run rb' cs)"

text \<open>
  Writing a pattern in several calls, one per chunk, each passing the length of its
  chunk as the count; the result is the buffer and the counts the calls returned.
\<close>

fun write_chunks :: "RingBuffer \<Rightarrow> Float32 list list \<Rightarrow> fault + (RingBuffer \<times> UInt32 list)" where
  "write_chunks rb [] = Inr (rb, [])"
| "write_chunks rb (c # cs) =
     (case EchoRingBuffer_Write rb c (word_of_nat (length c)) of
        Inl e \<Rightarrow> Inl e
      | Inr (rb', n) \<Rightarrow>
          (case write_chunks rb' cs of
             Inl e \<Rightarrow> Inl e | Inr (rb'', ns) \<Rightarrow> Inr (rb'', n # ns)))"

text \<open>
  The calls a host and a producer make on the device. The producer's call is
  \<open>EchoRingBuffer_Write\<close> on the device's ring buffer.
\<close>

datatype io_call =
    StartIO UInt64
  | StopIO
  | GetZeroTimeStamp
  | WillDoIOOperation UInt32
  | BeginIOOperation UInt32 UInt32
  | DoIOOperation UInt32 UInt32 "Float32 list"
  | EndIOOperation UInt32 UInt32
  | InjectSamples "Float32 list" UInt32

fun is_StartIO :: "io_call \<Rightarrow> bool" where
  "is_StartIO (StartIO now) = True"
| "is_StartIO c = False"

fun io_step :: "EchoDevice \<Rightarrow> io_call \<Rightarrow> fault + EchoDevice" where
  "io_step dev (StartIO now) = Inr (fst (EchoDevice_StartIO dev now))"
| "io_step dev StopIO = Inr (fst (EchoDevice_StopIO dev))"
| "io_step dev GetZeroTimeStamp = Inr dev"
| "io_step dev (WillDoIOOperation operationID) = Inr dev"
| "io_step dev (BeginIOOperation operationID n) = Inr dev"
| "io_step dev (DoIOOperation operationID n ioMainBuffer) =
     (case EchoDevice_DoIOOperation dev operationID n ioMainBuffer of
        Inl e \<Rightarrow> Inl e | Inr (dev', buffer', st) \<Rightarrow> Inr dev')"
| "io_step dev (EndIOOperation operationID n) = Inr dev"
| "io_step dev (InjectSamples data frames) =
     (case EchoRingBuffer_Write (ringBuffer dev) data frames of
        Inl e \<Rightarrow> Inl e | Inr (rb', n) \<Rightarrow> Inr (dev\<lparr>ringBuffer := rb'\<rparr>))"

fun io_run :: "EchoDevice \<Rightarrow> io_call list \<Rightarrow> fault + EchoDevice" where
  "io_run dev [] = Inr dev"
| "io_run dev (c # cs) =
     (case io_step dev c of Inl e \<Rightarrow> Inl e | Inr dev' \<Rightarrow> io_run dev' cs)"

text \<open>
  A device call keeps the contract of the C signatures when its arrays are as long as
  the counts it passes; \<open>ch\<close> is the device's channel count.
\<close>

fun io_call_ok :: "UInt32 \<Rightarrow> io_call \<Rightarrow> bool" where
  "io_call_ok ch (DoIOOperation operationID n ioMainBuffer) =
     (operationID = kAudioServerPlugInIOOperationReadInput
        \<longrightarrow> unat (n * ch) \<le> length ioMainBuffer)"
| "io_call_ok ch (InjectSamples data frames) = (unat frames \<le> length data)"
| "io_call_ok ch c = True"

section \<open>Arithmetic of counters and cursors\<close>

lemma GAR_nat:
  "rb_inv rb \<Longrightarrow> unat (EchoRingBuffer_GetAvailableRead rb) =
     (if unat (readIndex rb) \<le> unat (writeIndex rb)
      then unat (writeIndex rb) - unat (readIndex rb)
      else unat (size_rb rb) - unat (readIndex rb) + unat (writeIndex rb))"
  unfolding rb_inv_def EchoRingBuffer_GetAvailableRead_def Let_def
  by (simp split: if_splits) unat_arith

lemma GAR_lt:
  "rb_inv rb \<Longrightarrow> unat (EchoRingBuffer_GetAvailableRead rb) < unat (size_rb rb)"
  by (auto simp add: GAR_nat rb_inv_def word_less_nat_alt)

lemma GAW_nat:
  "rb_inv rb \<Longrightarrow> unat (EchoRingBuffer_GetAvailableWrite rb) =
     unat (size_rb rb) - unat (EchoRingBuffer_GetAvailableRead rb) - 1"
  using GAR_lt[of rb] unfolding EchoRingBuffer_GetAvailableWrite_def
  by unat_arith

lemma counter_step:
  fixes i :: UInt32
  assumes "i < n"
  shows "unat (i + 1) = Suc (unat i)" and "i + 1 \<le> n"
  using assms by unat_arith+

lemma cursor_step:
  fixes w :: UInt32
  assumes "w < sz"
  shows "unat ((w + 1) mod sz) = Suc (unat w) mod unat sz" and "(w + 1) mod sz < sz"
proof -
  from assms have "unat (w + 1) = Suc (unat w)"
    by (rule counter_step)
  then show "unat ((w + 1) mod sz) = Suc (unat w) mod unat sz"
    by (simp add: unat_mod)
  from assms have "0 < unat sz"
    by (simp add: word_less_nat_alt)
  then show "(w + 1) mod sz < sz"
    by (simp add: word_less_nat_alt unat_mod)
qed

lemma mod_shift: "(Suc w mod sz + k) mod sz = Suc (w + k) mod (sz::nat)"
  by (simp add: mod_add_left_eq)

lemma mod_distinct:
  fixes w :: nat
  assumes "w < sz" "0 < d" "d < sz"
  shows "(w + d) mod sz \<noteq> w"
proof (cases "w + d < sz")
  case True
  with assms show ?thesis by simp
next
  case False
  with assms have "(w + d) mod sz = w + d - sz"
    by (simp add: mod_if)
  with assms False show ?thesis by simp
qed

lemma Write_loop_spec:
  assumes "length (buffer rb) = unat (size_rb rb)" and "writeIndex rb < size_rb rb"
    and "i \<le> toWrite" and "unat toWrite \<le> length data"
    and "unat toWrite - unat i = n" and "n \<le> unat (size_rb rb)"
  shows "\<exists>rb'. EchoRingBuffer_Write_loop rb data i toWrite = Inr rb' \<and>
           size_rb rb' = size_rb rb \<and> readIndex rb' = readIndex rb \<and>
           length (buffer rb') = length (buffer rb) \<and>
           writeIndex rb' < size_rb rb \<and>
           unat (writeIndex rb') = (unat (writeIndex rb) + n) mod unat (size_rb rb) \<and>
           (\<forall>k<n. buffer rb' ! ((unat (writeIndex rb) + k) mod unat (size_rb rb))
                     = data ! (unat i + k)) \<and>
           (\<forall>j<unat (size_rb rb).
               (\<forall>k<n. j \<noteq> (unat (writeIndex rb) + k) mod unat (size_rb rb))
                 \<longrightarrow> buffer rb' ! j = buffer rb ! j)"
  using assms
proof (induction n arbitrary: rb i)
  case 0
  then have "\<not> i < toWrite"
    by (simp add: word_less_nat_alt word_le_nat_alt)
  then have "EchoRingBuffer_Write_loop rb data i toWrite = Inr rb"
    by (subst EchoRingBuffer_Write_loop.simps) simp
  with 0 show ?case
    by (simp add: word_less_nat_alt)
next
  case (Suc n)
  let ?w = "unat (writeIndex rb)" and ?sz = "unat (size_rb rb)"
  let ?rb1 = "rb\<lparr>buffer := (buffer rb)[?w := data ! unat i],
                  writeIndex := (writeIndex rb + 1) mod size_rb rb\<rparr>"
  from Suc.prems have lt: "i < toWrite"
    by (simp add: word_less_nat_alt)
  from Suc.prems have w: "?w < ?sz" and sz: "size_rb rb \<noteq> 0"
    by (auto simp add: word_less_nat_alt)
  from lt Suc.prems have i: "unat i < length data"
    by (simp add: word_less_nat_alt)
  have unf: "EchoRingBuffer_Write_loop rb data i toWrite =
               EchoRingBuffer_Write_loop ?rb1 data (i + 1) toWrite"
    using lt w sz i Suc.prems(1) by (subst EchoRingBuffer_Write_loop.simps) simp
  have w1: "unat (writeIndex ?rb1) = Suc ?w mod ?sz"
    using cursor_step(1)[OF Suc.prems(2)] by simp
  have "\<exists>rb'. EchoRingBuffer_Write_loop ?rb1 data (i + 1) toWrite = Inr rb' \<and>
           size_rb rb' = size_rb ?rb1 \<and> readIndex rb' = readIndex ?rb1 \<and>
           length (buffer rb') = length (buffer ?rb1) \<and>
           writeIndex rb' < size_rb ?rb1 \<and>
           unat (writeIndex rb') = (unat (writeIndex ?rb1) + n) mod unat (size_rb ?rb1) \<and>
           (\<forall>k<n. buffer rb' ! ((unat (writeIndex ?rb1) + k) mod unat (size_rb ?rb1))
                     = data ! (unat (i + 1) + k)) \<and>
           (\<forall>j<unat (size_rb ?rb1).
               (\<forall>k<n. j \<noteq> (unat (writeIndex ?rb1) + k) mod unat (size_rb ?rb1))
                 \<longrightarrow> buffer rb' ! j = buffer ?rb1 ! j)"
  proof (rule Suc.IH)
    show "length (buffer ?rb1) = unat (size_rb ?rb1)"
      using Suc.prems(1) by simp
    show "writeIndex ?rb1 < size_rb ?rb1"
      using cursor_step(2)[OF Suc.prems(2)] by simp
    show "i + 1 \<le> toWrite"
      using lt by (rule counter_step)
    show "unat toWrite \<le> length data"
      by (rule Suc.prems)
    show "unat toWrite - unat (i + 1) = n"
      using Suc.prems(5) counter_step(1)[OF lt] by simp
    show "n \<le> unat (size_rb ?rb1)"
      using Suc.prems(6) by simp
  qed
  then obtain rb' where
    r: "EchoRingBuffer_Write_loop ?rb1 data (i + 1) toWrite = Inr rb'"
    and f: "size_rb rb' = size_rb rb" "readIndex rb' = readIndex rb"
      "length (buffer rb') = length (buffer rb)" "writeIndex rb' < size_rb rb"
    and wi: "unat (writeIndex rb') = (Suc ?w mod ?sz + n) mod ?sz"
    and wr: "\<forall>k<n. buffer rb' ! ((Suc ?w mod ?sz + k) mod ?sz) = data ! (Suc (unat i) + k)"
    and un: "\<forall>j<?sz. (\<forall>k<n. j \<noteq> (Suc ?w mod ?sz + k) mod ?sz)
                 \<longrightarrow> buffer rb' ! j = (buffer rb)[?w := data ! unat i] ! j"
    using w1 counter_step(1)[OF lt] by auto
  have first: "buffer rb' ! ?w = data ! unat i"
  proof -
    have "\<forall>k<n. ?w \<noteq> (?w + Suc k) mod ?sz"
      using mod_distinct[OF w] Suc.prems(6) by (metis Suc_less_eq zero_less_Suc less_le_trans)
    then have "buffer rb' ! ?w = (buffer rb)[?w := data ! unat i] ! ?w"
      using un w by (simp add: mod_shift)
    then show ?thesis
      using w Suc.prems(1) by simp
  qed
  have written: "\<forall>k<Suc n. buffer rb' ! ((?w + k) mod ?sz) = data ! (unat i + k)"
  proof (intro allI impI)
    fix k assume k: "k < Suc n"
    show "buffer rb' ! ((?w + k) mod ?sz) = data ! (unat i + k)"
    proof (cases k)
      case 0
      with first w show ?thesis by simp
    next
      case (Suc k')
      with k wr show ?thesis by (simp add: mod_shift)
    qed
  qed
  have untouched: "\<forall>j<?sz. (\<forall>k<Suc n. j \<noteq> (?w + k) mod ?sz)
                      \<longrightarrow> buffer rb' ! j = buffer rb ! j"
  proof (intro allI impI)
    fix j assume j: "j < ?sz" and nk: "\<forall>k<Suc n. j \<noteq> (?w + k) mod ?sz"
    from nk have "j \<noteq> ?w"
      using w by (metis add.right_neutral mod_less zero_less_Suc)
    moreover have "\<forall>k<n. j \<noteq> (Suc ?w mod ?sz + k) mod ?sz"
    proof (intro allI impI)
      fix k assume "k < n"
      then have "Suc k < Suc n" by simp
      with nk have "j \<noteq> (?w + Suc k) mod ?sz" by blast
      then show "j \<noteq> (Suc ?w mod ?sz + k) mod ?sz"
        by (simp add: mod_shift)
    qed
    ultimately show "buffer rb' ! j = buffer rb ! j"
      using un j by simp
  qed
  have "unat (writeIndex rb') = (?w + Suc n) mod ?sz"
    using wi by (simp add: mod_shift)
  with unf r f written untouched show ?case
    by simp
qed


lemma Read_loop_spec:
  assumes "length (buffer rb) = unat (size_rb rb)" and "readIndex rb < size_rb rb"
    and "i \<le> toRead" and "unat toRead \<le> length data"
    and "unat toRead - unat i = n"
  shows "\<exists>r' data'. EchoRingBuffer_Read_loop rb data i toRead
                       = Inr (rb\<lparr>readIndex := r'\<rparr>, data') \<and>
           r' < size_rb rb \<and>
           unat r' = (unat (readIndex rb) + n) mod unat (size_rb rb) \<and>
           length data' = length data \<and>
           (\<forall>j<length data. data' ! j =
              (if unat i \<le> j \<and> j < unat toRead
               then buffer rb ! ((unat (readIndex rb) + (j - unat i)) mod unat (size_rb rb))
               else data ! j))"
  using assms
proof (induction n arbitrary: rb data i)
  case 0
  then have "\<not> i < toRead"
    by (simp add: word_less_nat_alt word_le_nat_alt)
  then have "EchoRingBuffer_Read_loop rb data i toRead = Inr (rb, data)"
    by (subst EchoRingBuffer_Read_loop.simps) simp
  moreover have "rb\<lparr>readIndex := readIndex rb\<rparr> = rb"
    by simp
  ultimately show ?case
    using 0 by (intro exI[of _ "readIndex rb"] exI[of _ data]) (auto simp add: word_less_nat_alt)
next
  case (Suc n)
  let ?r = "unat (readIndex rb)" and ?sz = "unat (size_rb rb)"
  let ?rb1 = "rb\<lparr>readIndex := (readIndex rb + 1) mod size_rb rb\<rparr>"
  let ?data1 = "data[unat i := buffer rb ! ?r]"
  from Suc.prems have lt: "i < toRead"
    by (simp add: word_less_nat_alt)
  from Suc.prems have r: "?r < ?sz" and sz: "size_rb rb \<noteq> 0"
    by (auto simp add: word_less_nat_alt)
  from lt Suc.prems have i: "unat i < length data"
    by (simp add: word_less_nat_alt)
  have unf: "EchoRingBuffer_Read_loop rb data i toRead =
               EchoRingBuffer_Read_loop ?rb1 ?data1 (i + 1) toRead"
    using lt r sz i Suc.prems(1) by (subst EchoRingBuffer_Read_loop.simps) simp
  have r1: "unat (readIndex ?rb1) = Suc ?r mod ?sz"
    using cursor_step(1)[OF Suc.prems(2)] by simp
  have "\<exists>r' data'. EchoRingBuffer_Read_loop ?rb1 ?data1 (i + 1) toRead
                       = Inr (?rb1\<lparr>readIndex := r'\<rparr>, data') \<and>
           r' < size_rb ?rb1 \<and>
           unat r' = (unat (readIndex ?rb1) + n) mod unat (size_rb ?rb1) \<and>
           length data' = length ?data1 \<and>
           (\<forall>j<length ?data1. data' ! j =
              (if unat (i + 1) \<le> j \<and> j < unat toRead
               then buffer ?rb1 ! ((unat (readIndex ?rb1) + (j - unat (i + 1)))
                                     mod unat (size_rb ?rb1))
               else ?data1 ! j))"
  proof (rule Suc.IH)
    show "length (buffer ?rb1) = unat (size_rb ?rb1)"
      using Suc.prems(1) by simp
    show "readIndex ?rb1 < size_rb ?rb1"
      using cursor_step(2)[OF Suc.prems(2)] by simp
    show "i + 1 \<le> toRead"
      using lt by (rule counter_step)
    show "unat toRead \<le> length ?data1"
      using Suc.prems(4) by simp
    show "unat toRead - unat (i + 1) = n"
      using Suc.prems(5) counter_step(1)[OF lt] by simp
  qed
  then obtain r' data' where
    res: "EchoRingBuffer_Read_loop ?rb1 ?data1 (i + 1) toRead = Inr (rb\<lparr>readIndex := r'\<rparr>, data')"
    and f: "r' < size_rb rb" "length data' = length data"
    and ri: "unat r' = (Suc ?r mod ?sz + n) mod ?sz"
    and cp: "\<forall>j<length data. data' ! j =
              (if Suc (unat i) \<le> j \<and> j < unat toRead
               then buffer rb ! ((Suc ?r mod ?sz + (j - Suc (unat i))) mod ?sz)
               else ?data1 ! j)"
    using r1 counter_step(1)[OF lt] by auto
  have copied: "\<forall>j<length data. data' ! j =
              (if unat i \<le> j \<and> j < unat toRead
               then buffer rb ! ((?r + (j - unat i)) mod ?sz)
               else data ! j)"
  proof (intro allI impI)
    fix j assume j: "j < length data"
    consider "j < unat i" | "j = unat i" | "unat i < j"
      by linarith
    then show "data' ! j =
              (if unat i \<le> j \<and> j < unat toRead
               then buffer rb ! ((?r + (j - unat i)) mod ?sz)
               else data ! j)"
    proof cases
      case 1
      with cp j show ?thesis by simp
    next
      case 2
      with cp j lt r show ?thesis by (simp add: word_less_nat_alt)
    next
      case 3
      then obtain d where d: "j = Suc (unat i + d)"
        using less_imp_Suc_add by blast
      from cp j have "data' ! j =
              (if Suc (unat i) \<le> j \<and> j < unat toRead
               then buffer rb ! ((Suc ?r mod ?sz + (j - Suc (unat i))) mod ?sz)
               else ?data1 ! j)"
        by blast
      then show ?thesis
        unfolding d by (simp add: mod_shift)
    qed
  qed
  have "unat r' = (?r + Suc n) mod ?sz"
    using ri by (simp add: mod_shift)
  with unf res f copied show ?case
    by (intro exI[of _ r'] exI[of _ data']) simp
qed

lemma Read_zero_fill_spec:
  assumes "i \<le> frames" and "unat frames \<le> length data" and "unat frames - unat i = n"
  shows "\<exists>data'. EchoRingBuffer_Read_zero_fill data i frames = Inr data' \<and>
           length data' = length data \<and>
           (\<forall>j<length data. data' ! j =
              (if unat i \<le> j \<and> j < unat frames then 0 else data ! j))"
  using assms
proof (induction n arbitrary: data i)
  case 0
  then have "\<not> i < frames"
    by (simp add: word_less_nat_alt word_le_nat_alt)
  then have "EchoRingBuffer_Read_zero_fill data i frames = Inr data"
    by (subst EchoRingBuffer_Read_zero_fill.simps) simp
  with 0 show ?case
    by (auto simp add: word_less_nat_alt word_le_nat_alt)
next
  case (Suc n)
  let ?data1 = "data[unat i := 0]"
  from Suc.prems have lt: "i < frames"
    by (simp add: word_less_nat_alt)
  from lt Suc.prems have i: "unat i < length data"
    by (simp add: word_less_nat_alt)
  have unf: "EchoRingBuffer_Read_zero_fill data i frames =
               EchoRingBuffer_Read_zero_fill ?data1 (i + 1) frames"
    using lt i by (subst EchoRingBuffer_Read_zero_fill.simps) simp
  have "\<exists>data'. EchoRingBuffer_Read_zero_fill ?data1 (i + 1) frames = Inr data' \<and>
           length data' = length ?data1 \<and>
           (\<forall>j<length ?data1. data' ! j =
              (if unat (i + 1) \<le> j \<and> j < unat frames then 0 else ?data1 ! j))"
  proof (rule Suc.IH)
    show "i + 1 \<le> frames"
      using lt by (rule counter_step)
    show "unat frames \<le> length ?data1"
      using Suc.prems(2) by simp
    show "unat frames - unat (i + 1) = n"
      using Suc.prems(3) counter_step(1)[OF lt] by simp
  qed
  then obtain data' where
    res: "EchoRingBuffer_Read_zero_fill ?data1 (i + 1) frames = Inr data'"
    and len: "length data' = length data"
    and z: "\<forall>j<length data. data' ! j =
              (if Suc (unat i) \<le> j \<and> j < unat frames then 0 else ?data1 ! j)"
    using counter_step(1)[OF lt] by auto
  have "\<forall>j<length data. data' ! j =
              (if unat i \<le> j \<and> j < unat frames then 0 else data ! j)"
  proof (intro allI impI)
    fix j assume j: "j < length data"
    show "data' ! j = (if unat i \<le> j \<and> j < unat frames then 0 else data ! j)"
    proof (cases "j = unat i")
      case True
      with z j lt show ?thesis by (simp add: word_less_nat_alt)
    next
      case False
      with z j show ?thesis by auto
    qed
  qed
  with unf res len show ?case
    by simp
qed


lemma mod_inj_le:
  fixes r :: nat
  assumes "a \<le> b" "b < sz" "(r + a) mod sz = (r + b) mod sz"
  shows "a = b"
proof -
  from assms(1) have "r + a \<le> r + b" by simp
  then have "sz dvd (r + b) - (r + a)"
    using assms(3) mod_eq_dvd_iff_nat[of "r + a" "r + b" sz] by simp
  then have "sz dvd b - a" by simp
  moreover from assms have "b - a < sz" by simp
  ultimately have "b - a = 0"
    using nat_dvd_not_less[of "b - a" sz] by auto
  with assms(1) show ?thesis by simp
qed

lemma mod_inj:
  fixes r :: nat
  assumes "a < sz" "b < sz" "(r + a) mod sz = (r + b) mod sz"
  shows "a = b"
proof (cases "a \<le> b")
  case True
  with assms show ?thesis by (auto intro: mod_inj_le)
next
  case False
  then have "b \<le> a" by simp
  with assms show ?thesis using mod_inj_le[of b a sz r] by simp
qed

lemma occ_cursor:
  assumes "rb_inv rb"
  shows "(unat (readIndex rb) + unat (EchoRingBuffer_GetAvailableRead rb)) mod unat (size_rb rb)
           = unat (writeIndex rb)"
  using assms by (auto simp add: GAR_nat rb_inv_def word_less_nat_alt)

lemma occ_unique:
  assumes "rb_inv rb" and "c < unat (size_rb rb)"
    and "(unat (readIndex rb) + c) mod unat (size_rb rb) = unat (writeIndex rb)"
  shows "unat (EchoRingBuffer_GetAvailableRead rb) = c"
  using mod_inj[OF GAR_lt[OF assms(1)] assms(2), of "unat (readIndex rb)"]
    occ_cursor[OF assms(1)] assms(3) by simp

lemma conditional_is_min:
  fixes frames :: UInt32
  shows "(if frames < available then frames else available) = min frames available"
  by (simp add: min_def not_less) (metis order.strict_iff_order)

lemma unat_min: "unat (min (a::UInt32) b) = min (unat a) (unat b)"
  by (simp add: min_def word_le_nat_alt)


lemma Write_spec:
  assumes inv: "rb_inv rb"
    and len: "unat (min frames (EchoRingBuffer_GetAvailableWrite rb)) \<le> length data"
  shows "\<exists>rb'. EchoRingBuffer_Write rb data frames
                  = Inr (rb', min frames (EchoRingBuffer_GetAvailableWrite rb)) \<and>
           rb_inv rb' \<and> size_rb rb' = size_rb rb \<and> readIndex rb' = readIndex rb \<and>
           length (buffer rb') = length (buffer rb) \<and>
           unat (writeIndex rb') =
             (unat (writeIndex rb) + unat (min frames (EchoRingBuffer_GetAvailableWrite rb)))
               mod unat (size_rb rb) \<and>
           (\<forall>k<unat (min frames (EchoRingBuffer_GetAvailableWrite rb)).
               buffer rb' ! ((unat (writeIndex rb) + k) mod unat (size_rb rb)) = data ! k) \<and>
           (\<forall>j<unat (size_rb rb).
               (\<forall>k<unat (min frames (EchoRingBuffer_GetAvailableWrite rb)).
                   j \<noteq> (unat (writeIndex rb) + k) mod unat (size_rb rb))
                 \<longrightarrow> buffer rb' ! j = buffer rb ! j)"
proof -
  let ?n = "min frames (EchoRingBuffer_GetAvailableWrite rb)"
  have "unat ?n \<le> unat (EchoRingBuffer_GetAvailableWrite rb)"
    by (simp add: unat_min)
  then have n: "unat ?n \<le> unat (size_rb rb)"
    using GAW_nat[OF inv] by simp
  have "\<exists>rb'. EchoRingBuffer_Write_loop rb data 0 ?n = Inr rb' \<and>
           size_rb rb' = size_rb rb \<and> readIndex rb' = readIndex rb \<and>
           length (buffer rb') = length (buffer rb) \<and>
           writeIndex rb' < size_rb rb \<and>
           unat (writeIndex rb') = (unat (writeIndex rb) + unat ?n) mod unat (size_rb rb) \<and>
           (\<forall>k<unat ?n. buffer rb' ! ((unat (writeIndex rb) + k) mod unat (size_rb rb))
                     = data ! (unat (0::UInt32) + k)) \<and>
           (\<forall>j<unat (size_rb rb).
               (\<forall>k<unat ?n. j \<noteq> (unat (writeIndex rb) + k) mod unat (size_rb rb))
                 \<longrightarrow> buffer rb' ! j = buffer rb ! j)"
    using inv len n by (intro Write_loop_spec) (simp_all add: rb_inv_def)
  then obtain rb' where "EchoRingBuffer_Write_loop rb data 0 ?n = Inr rb'"
    and "size_rb rb' = size_rb rb" "readIndex rb' = readIndex rb"
      "length (buffer rb') = length (buffer rb)" "writeIndex rb' < size_rb rb"
      "unat (writeIndex rb') = (unat (writeIndex rb) + unat ?n) mod unat (size_rb rb)"
      "\<forall>k<unat ?n. buffer rb' ! ((unat (writeIndex rb) + k) mod unat (size_rb rb)) = data ! k"
      "\<forall>j<unat (size_rb rb).
               (\<forall>k<unat ?n. j \<noteq> (unat (writeIndex rb) + k) mod unat (size_rb rb))
                 \<longrightarrow> buffer rb' ! j = buffer rb ! j"
    by auto
  with inv show ?thesis
    by (intro exI[of _ rb']) (simp add: EchoRingBuffer_Write_def conditional_is_min rb_inv_def)
qed


lemma Read_spec:
  assumes inv: "rb_inv rb" and len: "unat frames \<le> length data"
  shows "\<exists>r' data'. EchoRingBuffer_Read rb data frames
            = Inr (rb\<lparr>readIndex := r'\<rparr>, data',
                   min frames (EchoRingBuffer_GetAvailableRead rb)) \<and>
           r' < size_rb rb \<and>
           unat r' = (unat (readIndex rb) + unat (min frames (EchoRingBuffer_GetAvailableRead rb)))
                       mod unat (size_rb rb) \<and>
           length data' = length data \<and>
           (\<forall>j<length data. data' ! j =
              (if j < unat (min frames (EchoRingBuffer_GetAvailableRead rb))
               then buffer rb ! ((unat (readIndex rb) + j) mod unat (size_rb rb))
               else if j < unat frames then 0 else data ! j))"
proof -
  let ?n = "min frames (EchoRingBuffer_GetAvailableRead rb)"
  have nf: "?n \<le> frames"
    by simp
  then have nl: "unat ?n \<le> length data"
    using len by (simp add: word_le_nat_alt)
  have "\<exists>r' data'. EchoRingBuffer_Read_loop rb data 0 ?n
                       = Inr (rb\<lparr>readIndex := r'\<rparr>, data') \<and>
           r' < size_rb rb \<and>
           unat r' = (unat (readIndex rb) + unat ?n) mod unat (size_rb rb) \<and>
           length data' = length data \<and>
           (\<forall>j<length data. data' ! j =
              (if unat (0::UInt32) \<le> j \<and> j < unat ?n
               then buffer rb ! ((unat (readIndex rb) + (j - unat (0::UInt32)))
                                    mod unat (size_rb rb))
               else data ! j))"
    using inv nl by (intro Read_loop_spec) (simp_all add: rb_inv_def)
  then obtain r' data1 where
    l: "EchoRingBuffer_Read_loop rb data 0 ?n = Inr (rb\<lparr>readIndex := r'\<rparr>, data1)"
    and r': "r' < size_rb rb"
      "unat r' = (unat (readIndex rb) + unat ?n) mod unat (size_rb rb)"
    and len1: "length data1 = length data"
    and cp: "\<forall>j<length data. data1 ! j =
              (if j < unat ?n
               then buffer rb ! ((unat (readIndex rb) + j) mod unat (size_rb rb))
               else data ! j)"
    by auto
  have "\<exists>data'. EchoRingBuffer_Read_zero_fill data1 ?n frames = Inr data' \<and>
           length data' = length data1 \<and>
           (\<forall>j<length data1. data' ! j =
              (if unat ?n \<le> j \<and> j < unat frames then 0 else data1 ! j))"
    using nf len len1 by (intro Read_zero_fill_spec) simp_all
  then obtain data2 where
    z: "EchoRingBuffer_Read_zero_fill data1 ?n frames = Inr data2"
    and len2: "length data2 = length data"
    and zf: "\<forall>j<length data. data2 ! j =
              (if unat ?n \<le> j \<and> j < unat frames then 0 else data1 ! j)"
    using len1 by auto
  have "\<forall>j<length data. data2 ! j =
              (if j < unat ?n
               then buffer rb ! ((unat (readIndex rb) + j) mod unat (size_rb rb))
               else if j < unat frames then 0 else data ! j)"
    using zf cp by auto
  with l z r' len2 show ?thesis
    by (intro exI[of _ r'] exI[of _ data2]) (simp add: EchoRingBuffer_Read_def conditional_is_min)
qed


lemma cursor_plus:
  assumes "rb_inv rb"
  shows "(unat (writeIndex rb) + k) mod unat (size_rb rb)
           = (unat (readIndex rb) + (unat (EchoRingBuffer_GetAvailableRead rb) + k))
               mod unat (size_rb rb)"
proof -
  have "(unat (readIndex rb) + unat (EchoRingBuffer_GetAvailableRead rb) + k) mod unat (size_rb rb)
          = (unat (writeIndex rb) + k) mod unat (size_rb rb)"
    using occ_cursor[OF assms] by (metis mod_add_left_eq)
  then show ?thesis by (simp add: add.assoc)
qed

lemma Write_contents:
  assumes inv: "rb_inv rb"
    and len: "unat (min frames (EchoRingBuffer_GetAvailableWrite rb)) \<le> length data"
  shows "\<exists>rb'. EchoRingBuffer_Write rb data frames
                  = Inr (rb', min frames (EchoRingBuffer_GetAvailableWrite rb)) \<and>
           rb_inv rb' \<and> size_rb rb' = size_rb rb \<and>
           unat (EchoRingBuffer_GetAvailableRead rb') =
             unat (EchoRingBuffer_GetAvailableRead rb)
               + unat (min frames (EchoRingBuffer_GetAvailableWrite rb)) \<and>
           ring_contents rb' =
             ring_contents rb @ take (unat (min frames (EchoRingBuffer_GetAvailableWrite rb))) data"
proof -
  let ?n = "unat (min frames (EchoRingBuffer_GetAvailableWrite rb))"
  let ?occ = "unat (EchoRingBuffer_GetAvailableRead rb)"
  let ?r = "unat (readIndex rb)" and ?w = "unat (writeIndex rb)" and ?sz = "unat (size_rb rb)"
  from Write_spec[OF inv len] obtain rb' where
    res: "EchoRingBuffer_Write rb data frames
            = Inr (rb', min frames (EchoRingBuffer_GetAvailableWrite rb))"
    and inv': "rb_inv rb'" and sz': "size_rb rb' = size_rb rb"
    and r': "readIndex rb' = readIndex rb"
    and w': "unat (writeIndex rb') = (?w + ?n) mod ?sz"
    and wr: "\<forall>k<?n. buffer rb' ! ((?w + k) mod ?sz) = data ! k"
    and un: "\<forall>j<?sz. (\<forall>k<?n. j \<noteq> (?w + k) mod ?sz) \<longrightarrow> buffer rb' ! j = buffer rb ! j"
    by blast
  have "?n \<le> unat (EchoRingBuffer_GetAvailableWrite rb)"
    by (simp add: unat_min)
  then have room: "?occ + ?n < ?sz"
    using GAW_nat[OF inv] GAR_lt[OF inv] by simp
  have occ': "unat (EchoRingBuffer_GetAvailableRead rb') = ?occ + ?n"
  proof (rule occ_unique[OF inv'])
    show "?occ + ?n < unat (size_rb rb')"
      using room sz' by simp
    show "(unat (readIndex rb') + (?occ + ?n)) mod unat (size_rb rb') = unat (writeIndex rb')"
      using cursor_plus[OF inv, of ?n] w' r' sz' by simp
  qed
  have "ring_contents rb' = ring_contents rb @ take ?n data"
  proof (rule nth_equalityI)
    show "length (ring_contents rb') = length (ring_contents rb @ take ?n data)"
      using occ' len by (simp add: ring_contents_def)
  next
    fix k assume "k < length (ring_contents rb')"
    then have k: "k < ?occ + ?n"
      using occ' by (simp add: ring_contents_def)
    have lhs: "ring_contents rb' ! k = buffer rb' ! ((?r + k) mod ?sz)"
      using k occ' r' sz' by (simp add: ring_contents_def)
    show "ring_contents rb' ! k = (ring_contents rb @ take ?n data) ! k"
    proof (cases "k < ?occ")
      case True
      have "\<forall>k'<?n. (?r + k) mod ?sz \<noteq> (?w + k') mod ?sz"
      proof (intro allI impI notI)
        fix k' assume "k' < ?n" and "(?r + k) mod ?sz = (?w + k') mod ?sz"
        then have "(?r + k) mod ?sz = (?r + (?occ + k')) mod ?sz"
          by (simp add: cursor_plus[OF inv])
        moreover have "k < ?sz" "?occ + k' < ?sz"
          using True room \<open>k' < ?n\<close> by simp_all
        ultimately have "k = ?occ + k'"
          by (rule mod_inj[rotated 2])
        with True show False by simp
      qed
      moreover have "(?r + k) mod ?sz < ?sz"
        using room by simp
      ultimately have "buffer rb' ! ((?r + k) mod ?sz) = buffer rb ! ((?r + k) mod ?sz)"
        using un by blast
      with True lhs show ?thesis
        by (simp add: ring_contents_def nth_append)
    next
      case False
      then obtain k' where k': "k = ?occ + k'"
        using le_Suc_ex not_less by blast
      with k have kn: "k' < ?n" by simp
      then have "buffer rb' ! ((?w + k') mod ?sz) = data ! k'"
        using wr by blast
      then have "buffer rb' ! ((?r + k) mod ?sz) = data ! k'"
        using k' by (simp add: cursor_plus[OF inv])
      with lhs k' kn show ?thesis
        by (simp add: ring_contents_def nth_append)
    qed
  qed
  with res inv' sz' occ' show ?thesis
    by blast
qed


lemma Read_contents:
  assumes inv: "rb_inv rb" and len: "unat frames \<le> length data"
  shows "\<exists>rb' data'. EchoRingBuffer_Read rb data frames
            = Inr (rb', data', min frames (EchoRingBuffer_GetAvailableRead rb)) \<and>
           rb_inv rb' \<and> size_rb rb' = size_rb rb \<and> buffer rb' = buffer rb \<and>
           writeIndex rb' = writeIndex rb \<and>
           unat (readIndex rb') =
             (unat (readIndex rb) + unat (min frames (EchoRingBuffer_GetAvailableRead rb)))
               mod unat (size_rb rb) \<and>
           unat (EchoRingBuffer_GetAvailableRead rb') =
             unat (EchoRingBuffer_GetAvailableRead rb)
               - unat (min frames (EchoRingBuffer_GetAvailableRead rb)) \<and>
           ring_contents rb' =
             drop (unat (min frames (EchoRingBuffer_GetAvailableRead rb))) (ring_contents rb) \<and>
           data' =
             take (unat (min frames (EchoRingBuffer_GetAvailableRead rb))) (ring_contents rb)
             @ replicate (unat frames - unat (min frames (EchoRingBuffer_GetAvailableRead rb))) 0
             @ drop (unat frames) data"
proof -
  let ?n = "unat (min frames (EchoRingBuffer_GetAvailableRead rb))"
  let ?occ = "unat (EchoRingBuffer_GetAvailableRead rb)"
  let ?r = "unat (readIndex rb)" and ?w = "unat (writeIndex rb)" and ?sz = "unat (size_rb rb)"
  from Read_spec[OF inv len] obtain r' data' where
    res: "EchoRingBuffer_Read rb data frames
            = Inr (rb\<lparr>readIndex := r'\<rparr>, data',
                   min frames (EchoRingBuffer_GetAvailableRead rb))"
    and r': "r' < size_rb rb" "unat r' = (?r + ?n) mod ?sz"
    and len': "length data' = length data"
    and pt: "\<forall>j<length data. data' ! j =
              (if j < ?n then buffer rb ! ((?r + j) mod ?sz)
               else if j < unat frames then 0 else data ! j)"
    by blast
  let ?rb' = "rb\<lparr>readIndex := r'\<rparr>"
  have n: "?n \<le> ?occ" "?n \<le> unat frames"
    by (simp_all add: unat_min)
  have occ: "?occ < ?sz"
    by (rule GAR_lt[OF inv])
  have inv': "rb_inv ?rb'"
    using inv r' by (simp add: rb_inv_def)
  have shift: "(unat r' + k) mod ?sz = (?r + (?n + k)) mod ?sz" for k
    using r' by (simp add: mod_add_left_eq add.assoc)
  have occ': "unat (EchoRingBuffer_GetAvailableRead ?rb') = ?occ - ?n"
  proof (rule occ_unique[OF inv'])
    show "?occ - ?n < unat (size_rb ?rb')"
      using occ by simp
    show "(unat (readIndex ?rb') + (?occ - ?n)) mod unat (size_rb ?rb') = unat (writeIndex ?rb')"
      using shift[of "?occ - ?n"] n occ_cursor[OF inv] by simp
  qed
  have c: "ring_contents ?rb' = drop ?n (ring_contents rb)"
  proof (rule nth_equalityI)
    show "length (ring_contents ?rb') = length (drop ?n (ring_contents rb))"
      using occ' by (simp add: ring_contents_def)
  next
    fix k assume "k < length (ring_contents ?rb')"
    then have "k < ?occ - ?n"
      using occ' by (simp add: ring_contents_def)
    then have "?n + k < ?occ"
      by simp
    then show "ring_contents ?rb' ! k = drop ?n (ring_contents rb) ! k"
      using occ' shift[of k] \<open>k < ?occ - ?n\<close> by (simp add: ring_contents_def)
  qed
  have d: "data' = take ?n (ring_contents rb) @ replicate (unat frames - ?n) 0
                     @ drop (unat frames) data"
  proof (rule nth_equalityI)
    show "length data' = length (take ?n (ring_contents rb) @ replicate (unat frames - ?n) 0
                     @ drop (unat frames) data)"
      using len' len n by (simp add: ring_contents_def)
  next
    fix j assume "j < length data'"
    then have j: "j < length data"
      using len' by simp
    with pt have "data' ! j =
              (if j < ?n then buffer rb ! ((?r + j) mod ?sz)
               else if j < unat frames then 0 else data ! j)"
      by blast
    then show "data' ! j = (take ?n (ring_contents rb) @ replicate (unat frames - ?n) 0
                     @ drop (unat frames) data) ! j"
      using n j len by (auto simp add: ring_contents_def nth_append)
  qed
  from res inv' r' occ' c d show ?thesis
    by (intro exI[of _ ?rb'] exI[of _ data']) simp
qed

lemma Write_nothing:
  assumes "frames = 0 \<or> EchoRingBuffer_GetAvailableWrite rb = 0"
  shows "EchoRingBuffer_Write rb data frames = Inr (rb, 0)"
proof -
  have "(if frames < EchoRingBuffer_GetAvailableWrite rb then frames
         else EchoRingBuffer_GetAvailableWrite rb) = 0"
    using assms by (auto simp add: word_gt_0)
  moreover have "EchoRingBuffer_Write_loop rb data 0 0 = Inr rb"
    by (subst EchoRingBuffer_Write_loop.simps) simp
  ultimately show ?thesis
    by (simp add: EchoRingBuffer_Write_def)
qed

lemma Init_inv: "calloc_succeeded mem C \<Longrightarrow> 0 < C \<Longrightarrow> rb_inv (EchoRingBuffer_Init mem C)"
  by (simp add: rb_inv_def EchoRingBuffer_Init_def calloc_succeeded_def)

text \<open>
  After a failed allocation the first store of a Write is out of bounds, whatever the
  capacity asked for.
\<close>

lemma failed_allocation_faults:
  "EchoRingBuffer_Write (EchoRingBuffer_Init None 0xFFFFFFFF) [7] 1 = Inl OutOfBounds"
  by code_simp

lemma rb_step_inv:
  assumes "rb_inv rb" and "rb_call_ok c"
  shows "\<exists>rb'. rb_step rb c = Inr rb' \<and> rb_inv rb' \<and> size_rb rb' = size_rb rb"
proof (cases c)
  case (CallWrite data frames)
  have "unat (min frames (EchoRingBuffer_GetAvailableWrite rb)) \<le> unat frames"
    by (simp add: unat_min)
  with assms(2) CallWrite
  have "unat (min frames (EchoRingBuffer_GetAvailableWrite rb)) \<le> length data"
    by simp
  from Write_contents[OF assms(1) this] CallWrite show ?thesis
    by auto
next
  case (CallRead data frames)
  with assms(2) have "unat frames \<le> length data"
    by simp
  from Read_contents[OF assms(1) this] CallRead show ?thesis
    by auto
qed

lemma rb_run_inv:
  assumes "rb_inv rb" and "list_all rb_call_ok calls"
  shows "\<exists>rb'. rb_run rb calls = Inr rb' \<and> rb_inv rb' \<and> size_rb rb' = size_rb rb"
  using assms
proof (induction calls arbitrary: rb)
  case Nil
  then show ?case by simp
next
  case (Cons c cs)
  then obtain rb1 where s: "rb_step rb c = Inr rb1" "rb_inv rb1" "size_rb rb1 = size_rb rb"
    using rb_step_inv[of rb c] by auto
  from Cons.IH[OF s(2)] Cons.prems obtain rb' where
    "rb_run rb1 cs = Inr rb'" "rb_inv rb'" "size_rb rb' = size_rb rb1"
    by auto
  with s show ?case by simp
qed

lemma contents_length: "length (ring_contents rb) = unat (EchoRingBuffer_GetAvailableRead rb)"
  by (simp add: ring_contents_def)

lemma write_chunks_contents:
  assumes "rb_inv rb"
    and "unat (EchoRingBuffer_GetAvailableRead rb) + length (concat chunks)
           \<le> unat (size_rb rb) - 1"
  shows "\<exists>rb1. write_chunks rb chunks = Inr (rb1, map (\<lambda>c. word_of_nat (length c)) chunks) \<and>
           rb_inv rb1 \<and> size_rb rb1 = size_rb rb \<and>
           ring_contents rb1 = ring_contents rb @ concat chunks"
  using assms
proof (induction chunks arbitrary: rb)
  case Nil
  then show ?case by simp
next
  case (Cons c cs)
  let ?frames = "word_of_nat (length c) :: UInt32"
  let ?occ = "unat (EchoRingBuffer_GetAvailableRead rb)"
  from Cons.prems have room: "?occ + length c \<le> unat (size_rb rb) - 1"
    by simp
  have "unat (size_rb rb) < 2 ^ 32"
    using unsigned_less[of "size_rb rb"] by simp
  with room have "length c < 2 ^ LENGTH(32)"
    by simp
  then have fr: "unat ?frames = length c"
    by (simp add: unat_of_nat)
  have "unat ?frames \<le> unat (EchoRingBuffer_GetAvailableWrite rb)"
    using room fr GAW_nat[OF Cons.prems(1)] by simp
  then have m: "min ?frames (EchoRingBuffer_GetAvailableWrite rb) = ?frames"
    by (simp add: word_le_nat_alt)
  have "unat (min ?frames (EchoRingBuffer_GetAvailableWrite rb)) \<le> length c"
    using m fr by simp
  from Write_contents[OF Cons.prems(1) this] obtain rb' where
    w: "EchoRingBuffer_Write rb c ?frames = Inr (rb', ?frames)"
    and inv': "rb_inv rb'" and sz': "size_rb rb' = size_rb rb"
    and occ': "unat (EchoRingBuffer_GetAvailableRead rb') = ?occ + length c"
    and c': "ring_contents rb' = ring_contents rb @ c"
    using m fr by auto
  have "unat (EchoRingBuffer_GetAvailableRead rb') + length (concat cs)
           \<le> unat (size_rb rb') - 1"
    using Cons.prems(2) occ' sz' by simp
  from Cons.IH[OF inv' this] obtain rb1 where
    "write_chunks rb' cs = Inr (rb1, map (\<lambda>c. word_of_nat (length c)) cs)"
    "rb_inv rb1" "size_rb rb1 = size_rb rb'"
    "ring_contents rb1 = ring_contents rb' @ concat cs"
    by blast
  with w sz' c' show ?case
    by simp
qed

lemma io_step_anchor:
  assumes "\<not> is_StartIO c" and "io_step dev c = Inr dev'"
  shows "anchorHostTime dev' = anchorHostTime dev"
  using assms
  by (cases c)
     (auto simp add: EchoDevice_StopIO_def EchoDevice_DoIOOperation_def
           split: sum.splits if_splits prod.splits)

lemma io_run_anchor:
  assumes "list_all (\<lambda>c. \<not> is_StartIO c) calls" and "io_run dev calls = Inr dev'"
  shows "anchorHostTime dev' = anchorHostTime dev"
  using assms
proof (induction calls arbitrary: dev)
  case Nil
  then show ?case by simp
next
  case (Cons c cs)
  then obtain dev1 where s: "io_step dev c = Inr dev1" and r: "io_run dev1 cs = Inr dev'"
    by (auto split: sum.splits)
  from Cons.prems(1) s have "anchorHostTime dev1 = anchorHostTime dev"
    using io_step_anchor[of c dev dev1] by simp
  moreover from Cons.IH[OF _ r] Cons.prems(1) have "anchorHostTime dev' = anchorHostTime dev1"
    by simp
  ultimately show ?case by simp
qed

lemma io_step_returns:
  assumes "rb_inv (ringBuffer dev)" and "io_call_ok (channels dev) c"
  shows "\<exists>dev'. io_step dev c = Inr dev' \<and> rb_inv (ringBuffer dev') \<and>
           channels dev' = channels dev"
proof (cases c)
  case (DoIOOperation operationID n ioMainBuffer)
  show ?thesis
  proof (cases "operationID = kAudioServerPlugInIOOperationReadInput")
    case True
    with assms(2) DoIOOperation have "unat (n * channels dev) \<le> length ioMainBuffer"
      by simp
    from Read_contents[OF assms(1) this] True DoIOOperation show ?thesis
      by (auto simp add: EchoDevice_DoIOOperation_def)
  next
    case False
    with assms(1) DoIOOperation show ?thesis
      by (simp add: EchoDevice_DoIOOperation_def)
  qed
next
  case (InjectSamples data frames)
  have "unat (min frames (EchoRingBuffer_GetAvailableWrite (ringBuffer dev))) \<le> unat frames"
    by (simp add: unat_min)
  with assms(2) InjectSamples
  have "unat (min frames (EchoRingBuffer_GetAvailableWrite (ringBuffer dev))) \<le> length data"
    by simp
  from Write_contents[OF assms(1) this] InjectSamples show ?thesis
    by auto
qed (use assms(1) in \<open>simp_all add: EchoDevice_StartIO_def EchoDevice_StopIO_def\<close>)

lemma io_run_returns:
  assumes "rb_inv (ringBuffer dev)" and "list_all (io_call_ok (channels dev)) calls"
  shows "\<exists>dev'. io_run dev calls = Inr dev'"
  using assms
proof (induction calls arbitrary: dev)
  case Nil
  then show ?case by simp
next
  case (Cons c cs)
  then obtain dev1 where s: "io_step dev c = Inr dev1" "rb_inv (ringBuffer dev1)"
      "channels dev1 = channels dev"
    using io_step_returns[of dev c] by auto
  with Cons.IH[of dev1] Cons.prems(2) show ?case
    by simp
qed

lemma Engram_Write_loop:
  "EngramRingBuffer_Write_loop rb data i toWrite = EchoRingBuffer_Write_loop rb data i toWrite"
proof (induction rb data i toWrite rule: EchoRingBuffer_Write_loop.induct)
  case (1 rb data i toWrite)
  then show ?case
    by (subst EngramRingBuffer_Write_loop.simps, subst EchoRingBuffer_Write_loop.simps) simp
qed

lemma Engram_Read_loop:
  "EngramRingBuffer_Read_loop rb data i toRead = EchoRingBuffer_Read_loop rb data i toRead"
proof (induction rb data i toRead rule: EchoRingBuffer_Read_loop.induct)
  case (1 rb data i toRead)
  then show ?case
    by (subst EngramRingBuffer_Read_loop.simps, subst EchoRingBuffer_Read_loop.simps) simp
qed

lemma Engram_Read_zero_fill:
  "EngramRingBuffer_Read_zero_fill data i frames = EchoRingBuffer_Read_zero_fill data i frames"
proof (induction data i frames rule: EchoRingBuffer_Read_zero_fill.induct)
  case (1 data i frames)
  then show ?case
    by (subst EngramRingBuffer_Read_zero_fill.simps, subst EchoRingBuffer_Read_zero_fill.simps)
       simp
qed

lemma Engram_GetAvailableRead:
  "EngramRingBuffer_GetAvailableRead rb = EchoRingBuffer_GetAvailableRead rb"
  by (simp add: EngramRingBuffer_GetAvailableRead_def EchoRingBuffer_GetAvailableRead_def)

lemma Engram_GetAvailableWrite:
  "EngramRingBuffer_GetAvailableWrite rb = EchoRingBuffer_GetAvailableWrite rb"
  by (simp add: EngramRingBuffer_GetAvailableWrite_def EchoRingBuffer_GetAvailableWrite_def
        Engram_GetAvailableRead)

section \<open>The example scenario of the specification\<close>

text \<open>
  Capacity 8: writing seven samples returns 7; reading four returns the first four;
  writing three more finds four slots free and stores all three; reading ten returns
  the six buffered samples followed by four zeros, with 6 as the count.
\<close>

lemma specification_example_scenario:
  "EchoRingBuffer_Write (EchoRingBuffer_Init (Some [0, 0, 0, 0, 0, 0, 0, 0]) 8)
       [1, 2, 3, 4, 5, 6, 7] 7
     = Inr (\<lparr>buffer = [1, 2, 3, 4, 5, 6, 7, 0], size_rb = 8, writeIndex = 7, readIndex = 0\<rparr>, 7)"
  "EchoRingBuffer_Read
       \<lparr>buffer = [1, 2, 3, 4, 5, 6, 7, 0], size_rb = 8, writeIndex = 7, readIndex = 0\<rparr>
       [9, 9, 9, 9] 4
     = Inr (\<lparr>buffer = [1, 2, 3, 4, 5, 6, 7, 0], size_rb = 8, writeIndex = 7, readIndex = 4\<rparr>,
            [1, 2, 3, 4], 4)"
  "EchoRingBuffer_GetAvailableWrite
       \<lparr>buffer = [1, 2, 3, 4, 5, 6, 7, 0], size_rb = 8, writeIndex = 7, readIndex = 4\<rparr> = 4"
  "EchoRingBuffer_Write
       \<lparr>buffer = [1, 2, 3, 4, 5, 6, 7, 0], size_rb = 8, writeIndex = 7, readIndex = 4\<rparr>
       [8, 9, 10] 3
     = Inr (\<lparr>buffer = [9, 10, 3, 4, 5, 6, 7, 8], size_rb = 8, writeIndex = 2, readIndex = 4\<rparr>, 3)"
  "EchoRingBuffer_Read
       \<lparr>buffer = [9, 10, 3, 4, 5, 6, 7, 8], size_rb = 8, writeIndex = 2, readIndex = 4\<rparr>
       [9, 9, 9, 9, 9, 9, 9, 9, 9, 9] 10
     = Inr (\<lparr>buffer = [9, 10, 3, 4, 5, 6, 7, 8], size_rb = 8, writeIndex = 2, readIndex = 2\<rparr>,
            [5, 6, 7, 8, 9, 10, 0, 0, 0, 0], 6)"
  by code_simp+

section \<open>Claims about the ring buffer\<close>

text \<open>
  Claim C1. In a buffer that satisfies the cursor invariant, Read with a request of
  \<open>frames\<close> samples into an array with at least that many slots returns
  \<open>n = min frames occupied\<close>, the number of real samples. The array then holds
  the \<open>n\<close> samples of the slots \<open>readIndex\<close>, \<open>readIndex + 1\<close>, ... (modulo the
  capacity) in that order, zeros in the slots from \<open>n\<close> up to \<open>frames\<close>, and its
  old values from \<open>frames\<close> on. \<open>readIndex\<close> has advanced by \<open>n\<close> modulo the
  capacity, and nothing else of the buffer has changed.
\<close>

theorem EchoRingBuffer_Read_zero_fills_underrun:
  assumes "rb_inv rb" and "unat frames \<le> length data"
  shows "EchoRingBuffer_Read rb data frames =
     Inr (rb\<lparr>readIndex := word_of_nat
              ((unat (readIndex rb) + unat (min frames (EchoRingBuffer_GetAvailableRead rb)))
                 mod unat (size_rb rb))\<rparr>,
          map (\<lambda>k. buffer rb ! ((unat (readIndex rb) + k) mod unat (size_rb rb)))
              [0..<unat (min frames (EchoRingBuffer_GetAvailableRead rb))]
          @ replicate (unat frames - unat (min frames (EchoRingBuffer_GetAvailableRead rb))) 0
          @ drop (unat frames) data,
          min frames (EchoRingBuffer_GetAvailableRead rb))"
proof -
  let ?n = "unat (min frames (EchoRingBuffer_GetAvailableRead rb))"
  from Read_contents[OF assms] obtain rb' data' where
    res: "EchoRingBuffer_Read rb data frames
            = Inr (rb', data', min frames (EchoRingBuffer_GetAvailableRead rb))"
    and same: "size_rb rb' = size_rb rb" "buffer rb' = buffer rb" "writeIndex rb' = writeIndex rb"
    and r': "unat (readIndex rb') = (unat (readIndex rb) + ?n) mod unat (size_rb rb)"
    and out: "data' = take ?n (ring_contents rb) @ replicate (unat frames - ?n) 0
                        @ drop (unat frames) data"
    by blast
  have "?n \<le> unat (EchoRingBuffer_GetAvailableRead rb)"
    by (simp add: unat_min)
  then have "take ?n (ring_contents rb) =
               map (\<lambda>k. buffer rb ! ((unat (readIndex rb) + k) mod unat (size_rb rb))) [0..<?n]"
    by (simp add: ring_contents_def take_map min_absorb2)
  moreover have "readIndex rb' =
                   word_of_nat ((unat (readIndex rb) + ?n) mod unat (size_rb rb))"
    using r' by (metis of_nat_unat ucast_id)
  then have "rb' = rb\<lparr>readIndex := word_of_nat
              ((unat (readIndex rb) + ?n) mod unat (size_rb rb))\<rparr>"
    using same by simp
  ultimately show ?thesis
    using res out by simp
qed

theorem EchoRingBuffer_Read_zero_fills_underrun_witness:
  "rb_inv \<lparr>buffer = [5, 6, 7, 8], size_rb = 4, writeIndex = 1, readIndex = 3\<rparr> \<and>
   unat (4 :: UInt32) \<le> length [9, 9, 9, 9, 9 :: Float32] \<and>
   EchoRingBuffer_Read \<lparr>buffer = [5, 6, 7, 8], size_rb = 4, writeIndex = 1, readIndex = 3\<rparr>
       [9, 9, 9, 9, 9] 4
     = Inr (\<lparr>buffer = [5, 6, 7, 8], size_rb = 4, writeIndex = 1, readIndex = 1\<rparr>,
            [8, 5, 0, 0, 9], 2)"
proof -
  let ?rb = "\<lparr>buffer = [5, 6, 7, 8], size_rb = 4, writeIndex = 1, readIndex = 3\<rparr> :: RingBuffer"
  have inv: "rb_inv ?rb"
    by (simp add: rb_inv_def)
  have len: "unat (4 :: UInt32) \<le> length [9, 9, 9, 9, 9 :: Float32]"
    by simp
  have occ: "EchoRingBuffer_GetAvailableRead ?rb = 2"
    by (simp add: EchoRingBuffer_GetAvailableRead_def word_le_nat_alt)
  have out: "map (\<lambda>k. [5, 6, 7, 8 :: Float32] ! ((3 + k) mod 4)) [0..<2] @ replicate 2 0
               = [8, 5, 0, 0]"
    by code_simp
  show ?thesis
    using inv len EchoRingBuffer_Read_zero_fills_underrun[OF inv len]
    by (simp add: occ out)
qed

text \<open>
  Claim C2. In a buffer that satisfies the cursor invariant, Write with \<open>frames\<close>
  samples from an array holding at least that many returns \<open>n = min frames free\<close>,
  where \<open>free\<close> is what GetAvailableWrite gives. The first \<open>n\<close> samples of the array
  are in the slots \<open>writeIndex\<close>, \<open>writeIndex + 1\<close>, ... (modulo the capacity), every
  other slot keeps its value, \<open>writeIndex\<close> has advanced by \<open>n\<close> modulo the capacity,
  and \<open>readIndex\<close> and the capacity are unchanged; the input beyond \<open>n\<close> is dropped.
  With \<open>frames = 0\<close> the buffer is unchanged and the result is 0.
\<close>

theorem EchoRingBuffer_Write_stores_min:
  assumes "rb_inv rb" and "unat frames \<le> length data"
  shows "\<exists>rb'. EchoRingBuffer_Write rb data frames
                  = Inr (rb', min frames (EchoRingBuffer_GetAvailableWrite rb)) \<and>
           size_rb rb' = size_rb rb \<and> readIndex rb' = readIndex rb \<and>
           length (buffer rb') = length (buffer rb) \<and>
           unat (writeIndex rb') =
             (unat (writeIndex rb) + unat (min frames (EchoRingBuffer_GetAvailableWrite rb)))
               mod unat (size_rb rb) \<and>
           (\<forall>k<unat (min frames (EchoRingBuffer_GetAvailableWrite rb)).
               buffer rb' ! ((unat (writeIndex rb) + k) mod unat (size_rb rb)) = data ! k) \<and>
           (\<forall>j<unat (size_rb rb).
               (\<forall>k<unat (min frames (EchoRingBuffer_GetAvailableWrite rb)).
                   j \<noteq> (unat (writeIndex rb) + k) mod unat (size_rb rb))
                 \<longrightarrow> buffer rb' ! j = buffer rb ! j) \<and>
           (frames = 0 \<longrightarrow> rb' = rb)"
proof -
  have "unat (min frames (EchoRingBuffer_GetAvailableWrite rb)) \<le> unat frames"
    by (simp add: unat_min)
  with assms(2) have len: "unat (min frames (EchoRingBuffer_GetAvailableWrite rb)) \<le> length data"
    by simp
  from Write_spec[OF assms(1) len] obtain rb' where
    res: "EchoRingBuffer_Write rb data frames
            = Inr (rb', min frames (EchoRingBuffer_GetAvailableWrite rb))"
    and rest: "size_rb rb' = size_rb rb" "readIndex rb' = readIndex rb"
      "length (buffer rb') = length (buffer rb)"
      "unat (writeIndex rb') =
             (unat (writeIndex rb) + unat (min frames (EchoRingBuffer_GetAvailableWrite rb)))
               mod unat (size_rb rb)"
      "\<forall>k<unat (min frames (EchoRingBuffer_GetAvailableWrite rb)).
               buffer rb' ! ((unat (writeIndex rb) + k) mod unat (size_rb rb)) = data ! k"
      "\<forall>j<unat (size_rb rb).
               (\<forall>k<unat (min frames (EchoRingBuffer_GetAvailableWrite rb)).
                   j \<noteq> (unat (writeIndex rb) + k) mod unat (size_rb rb))
                 \<longrightarrow> buffer rb' ! j = buffer rb ! j"
    by blast
  have "frames = 0 \<longrightarrow> rb' = rb"
    using res Write_nothing[of frames rb data] by auto
  with res rest show ?thesis
    by blast
qed

theorem EchoRingBuffer_Write_stores_min_witness:
  "rb_inv \<lparr>buffer = [0, 0, 0, 0], size_rb = 4, writeIndex = 3, readIndex = 1\<rparr> \<and>
   unat (2 :: UInt32) \<le> length [7, 8 :: Float32] \<and>
   EchoRingBuffer_GetAvailableWrite
       \<lparr>buffer = [0, 0, 0, 0], size_rb = 4, writeIndex = 3, readIndex = 1\<rparr> = 1 \<and>
   EchoRingBuffer_Write \<lparr>buffer = [0, 0, 0, 0], size_rb = 4, writeIndex = 3, readIndex = 1\<rparr>
       [7, 8] 2
     = Inr (\<lparr>buffer = [0, 0, 0, 7], size_rb = 4, writeIndex = 0, readIndex = 1\<rparr>, 1)"
proof -
  let ?rb = "\<lparr>buffer = [0, 0, 0, 0], size_rb = 4, writeIndex = 3, readIndex = 1\<rparr> :: RingBuffer"
  have inv: "rb_inv ?rb"
    by (simp add: rb_inv_def)
  have len: "unat (2 :: UInt32) \<le> length [7, 8 :: Float32]"
    by simp
  have free: "EchoRingBuffer_GetAvailableWrite ?rb = 1"
    by code_simp
  have run: "EchoRingBuffer_Write ?rb [7, 8] 2
     = Inr (\<lparr>buffer = [0, 0, 0, 7], size_rb = 4, writeIndex = 0, readIndex = 1\<rparr>, 1)"
    by code_simp
  from EchoRingBuffer_Write_stores_min[OF inv len] obtain rb' where
    "EchoRingBuffer_Write ?rb [7, 8] 2 = Inr (rb', min 2 (EchoRingBuffer_GetAvailableWrite ?rb))"
    by blast
  with inv len free run show ?thesis
    by simp
qed

text \<open>
  Claim C3. In a buffer of capacity \<open>C\<close> that satisfies the cursor invariant,
  GetAvailableWrite is \<open>C - occupied - 1\<close>, computed without wrap-around. Writing
  \<open>C - 1\<close> samples into an empty buffer returns \<open>C - 1\<close> and leaves no free slot,
  and every later write, whatever its input, returns 0 and leaves the buffer as it is.
\<close>

theorem usable_capacity:
  assumes "rb_inv rb"
  shows "unat (EchoRingBuffer_GetAvailableWrite rb)
           = unat (size_rb rb) - unat (EchoRingBuffer_GetAvailableRead rb) - 1 \<and>
         (writeIndex rb = readIndex rb \<and> unat (size_rb rb) - 1 \<le> length data \<longrightarrow>
            (\<exists>rb1. EchoRingBuffer_Write rb data (size_rb rb - 1) = Inr (rb1, size_rb rb - 1) \<and>
                   EchoRingBuffer_GetAvailableWrite rb1 = 0 \<and>
                   (\<forall>data' frames'. EchoRingBuffer_Write rb1 data' frames' = Inr (rb1, 0))))"
proof (intro conjI impI)
  show "unat (EchoRingBuffer_GetAvailableWrite rb)
           = unat (size_rb rb) - unat (EchoRingBuffer_GetAvailableRead rb) - 1"
    by (rule GAW_nat[OF assms])
next
  assume e: "writeIndex rb = readIndex rb \<and> unat (size_rb rb) - 1 \<le> length data"
  then have occ: "EchoRingBuffer_GetAvailableRead rb = 0"
    by (simp add: EchoRingBuffer_GetAvailableRead_def)
  then have free: "EchoRingBuffer_GetAvailableWrite rb = size_rb rb - 1"
    by (simp add: EchoRingBuffer_GetAvailableWrite_def)
  from assms have "size_rb rb \<noteq> 0"
    by (auto simp add: rb_inv_def)
  then have u: "unat (size_rb rb - 1) = unat (size_rb rb) - 1"
    by (simp add: unat_minus_one)
  have len: "unat (min (size_rb rb - 1) (EchoRingBuffer_GetAvailableWrite rb)) \<le> length data"
    using e free u by simp
  from Write_contents[OF assms len] obtain rb1 where
    res: "EchoRingBuffer_Write rb data (size_rb rb - 1) = Inr (rb1, size_rb rb - 1)"
    and inv1: "rb_inv rb1" and sz1: "size_rb rb1 = size_rb rb"
    and occ1: "unat (EchoRingBuffer_GetAvailableRead rb1) = unat (size_rb rb) - 1"
    using free occ u by auto
  have "unat (EchoRingBuffer_GetAvailableWrite rb1) = 0"
    using GAW_nat[OF inv1] occ1 sz1 by simp
  then have full: "EchoRingBuffer_GetAvailableWrite rb1 = 0"
    by (simp add: unat_eq_zero)
  then have "\<forall>data' frames'. EchoRingBuffer_Write rb1 data' frames' = Inr (rb1, 0)"
    by (simp add: Write_nothing)
  with res full show "\<exists>rb1. EchoRingBuffer_Write rb data (size_rb rb - 1) = Inr (rb1, size_rb rb - 1) \<and>
                   EchoRingBuffer_GetAvailableWrite rb1 = 0 \<and>
                   (\<forall>data' frames'. EchoRingBuffer_Write rb1 data' frames' = Inr (rb1, 0))"
    by blast
qed

theorem usable_capacity_witness:
  "rb_inv \<lparr>buffer = [0, 0, 0, 0], size_rb = 4, writeIndex = 2, readIndex = 2\<rparr> \<and>
   unat (4 :: UInt32) - 1 \<le> length [1, 2, 3 :: Float32] \<and>
   unat (EchoRingBuffer_GetAvailableWrite
           \<lparr>buffer = [0, 0, 0, 0], size_rb = 4, writeIndex = 2, readIndex = 2\<rparr>) = 3 \<and>
   EchoRingBuffer_Write \<lparr>buffer = [0, 0, 0, 0], size_rb = 4, writeIndex = 2, readIndex = 2\<rparr>
       [1, 2, 3] 3
     = Inr (\<lparr>buffer = [3, 0, 1, 2], size_rb = 4, writeIndex = 1, readIndex = 2\<rparr>, 3) \<and>
   EchoRingBuffer_Write \<lparr>buffer = [3, 0, 1, 2], size_rb = 4, writeIndex = 1, readIndex = 2\<rparr>
       [9] 1
     = Inr (\<lparr>buffer = [3, 0, 1, 2], size_rb = 4, writeIndex = 1, readIndex = 2\<rparr>, 0)"
proof -
  let ?rb = "\<lparr>buffer = [0, 0, 0, 0], size_rb = 4, writeIndex = 2, readIndex = 2\<rparr> :: RingBuffer"
  let ?rb1 = "\<lparr>buffer = [3, 0, 1, 2], size_rb = 4, writeIndex = 1, readIndex = 2\<rparr> :: RingBuffer"
  have inv: "rb_inv ?rb"
    by (simp add: rb_inv_def)
  have len: "unat (4 :: UInt32) - 1 \<le> length [1, 2, 3 :: Float32]"
    by simp
  have occ: "unat (EchoRingBuffer_GetAvailableRead ?rb) = 0"
    by (simp add: EchoRingBuffer_GetAvailableRead_def)
  have run: "EchoRingBuffer_Write ?rb [1, 2, 3] 3 = Inr (?rb1, 3)"
    by code_simp
  from usable_capacity[OF inv, of "[1, 2, 3]"] len run
  have "unat (EchoRingBuffer_GetAvailableWrite ?rb) = 3"
    and "\<forall>data' frames'. EchoRingBuffer_Write ?rb1 data' frames' = Inr (?rb1, 0)"
    using occ by auto
  with inv len run show ?thesis
    by simp
qed

text \<open>
  Claim C4. Start from a freshly initialised buffer of capacity \<open>C > 0\<close> whose
  storage \<open>calloc\<close> did allocate, and make any
  sequence of Write and Read calls, each with an array of at least the count it passes.
  After every call of the sequence the run has returned a state in which both cursors
  are below \<open>C\<close>, GetAvailableRead is \<open>writeIndex - readIndex\<close> when
  \<open>writeIndex \<ge> readIndex\<close> and \<open>C - readIndex + writeIndex\<close> otherwise, computed without
  wrap-around, and that number is at most \<open>C - 1\<close>.
\<close>

theorem cursor_invariant_after_each_call:
  assumes "calloc_succeeded mem C" and "0 < C" and "list_all rb_call_ok calls"
  shows "\<exists>rb. rb_run (EchoRingBuffer_Init mem C) (take k calls) = Inr rb \<and>
           size_rb rb = C \<and> length (buffer rb) = unat C \<and>
           writeIndex rb < C \<and> readIndex rb < C \<and>
           unat (EchoRingBuffer_GetAvailableRead rb) =
             (if unat (readIndex rb) \<le> unat (writeIndex rb)
              then unat (writeIndex rb) - unat (readIndex rb)
              else unat C - unat (readIndex rb) + unat (writeIndex rb)) \<and>
           unat (EchoRingBuffer_GetAvailableRead rb) \<le> unat C - 1"
proof -
  from assms(3) have "list_all rb_call_ok (take k calls)"
    by (simp add: list_all_iff) (meson in_set_takeD)
  from rb_run_inv[OF Init_inv[OF assms(1) assms(2)] this] obtain rb where
    run: "rb_run (EchoRingBuffer_Init mem C) (take k calls) = Inr rb"
    and inv: "rb_inv rb" and sz: "size_rb rb = C"
    by (auto simp add: EchoRingBuffer_Init_def)
  from GAR_nat[OF inv] GAR_lt[OF inv] inv sz run show ?thesis
    by (auto simp add: rb_inv_def)
qed

theorem cursor_invariant_after_each_call_witness:
  "calloc_succeeded (Some [0, 0, 0, 0]) 4 \<and>
   (0 :: UInt32) < 4 \<and>
   list_all rb_call_ok [CallWrite [1, 2, 3] 3, CallRead [0, 0] 2, CallWrite [4, 5] 2] \<and>
   rb_run (EchoRingBuffer_Init (Some [0, 0, 0, 0]) 4)
       (take 3 [CallWrite [1, 2, 3] 3, CallRead [0, 0] 2, CallWrite [4, 5] 2])
     = Inr \<lparr>buffer = [5, 2, 3, 4], size_rb = 4, writeIndex = 1, readIndex = 2\<rparr> \<and>
   unat (EchoRingBuffer_GetAvailableRead
           \<lparr>buffer = [5, 2, 3, 4], size_rb = 4, writeIndex = 1, readIndex = 2\<rparr>) = 3"
proof -
  let ?calls = "[CallWrite [1, 2, 3] 3, CallRead [0, 0] 2, CallWrite [4, 5] 2]"
  have mem: "calloc_succeeded (Some [0, 0, 0, 0]) 4"
    by code_simp
  have pos: "(0 :: UInt32) < 4"
    by simp
  have ok: "list_all rb_call_ok ?calls"
    by simp
  have run: "rb_run (EchoRingBuffer_Init (Some [0, 0, 0, 0]) 4) (take 3 ?calls)
     = Inr \<lparr>buffer = [5, 2, 3, 4], size_rb = 4, writeIndex = 1, readIndex = 2\<rparr>"
    by code_simp
  from cursor_invariant_after_each_call[OF mem pos ok, of 3] run
  have "unat (EchoRingBuffer_GetAvailableRead
           \<lparr>buffer = [5, 2, 3, 4], size_rb = 4, writeIndex = 1, readIndex = 2\<rparr>) = 3"
    by simp
  with mem pos ok run show ?thesis
    by simp
qed

text \<open>
  Claim C5. Take an empty buffer that satisfies the cursor invariant and a pattern of
  length \<open>L \<le> capacity - 1\<close>, cut into chunks in any way, one chunk being the case of
  a single call. Writing the chunks one call after another stores every chunk in full,
  and reading \<open>L\<close> samples afterwards returns \<open>L\<close> and puts the pattern, in the order
  it was written, into the first \<open>L\<close> slots of the output array.
\<close>

theorem write_then_read_round_trip:
  assumes "rb_inv rb" and "writeIndex rb = readIndex rb"
    and "length (concat chunks) \<le> unat (size_rb rb) - 1"
    and "length (concat chunks) \<le> length out"
  shows "\<exists>rb1 rb2.
           write_chunks rb chunks = Inr (rb1, map (\<lambda>c. word_of_nat (length c)) chunks) \<and>
           EchoRingBuffer_Read rb1 out (word_of_nat (length (concat chunks)))
             = Inr (rb2, concat chunks @ drop (length (concat chunks)) out,
                    word_of_nat (length (concat chunks)))"
proof -
  let ?L = "length (concat chunks)"
  let ?frames = "word_of_nat ?L :: UInt32"
  from assms(2) have occ: "EchoRingBuffer_GetAvailableRead rb = 0"
    by (simp add: EchoRingBuffer_GetAvailableRead_def)
  then have empty: "ring_contents rb = []"
    by (simp add: ring_contents_def)
  have "unat (EchoRingBuffer_GetAvailableRead rb) + ?L \<le> unat (size_rb rb) - 1"
    using assms(3) occ by simp
  from write_chunks_contents[OF assms(1) this] obtain rb1 where
    w: "write_chunks rb chunks = Inr (rb1, map (\<lambda>c. word_of_nat (length c)) chunks)"
    and inv1: "rb_inv rb1" and c1: "ring_contents rb1 = concat chunks"
    using empty by auto
  have "unat (size_rb rb) < 2 ^ 32"
    using unsigned_less[of "size_rb rb"] by simp
  with assms(3) have "?L < 2 ^ LENGTH(32)"
    by simp
  then have fr: "unat ?frames = ?L"
    by (simp add: unat_of_nat)
  have "unat (EchoRingBuffer_GetAvailableRead rb1) = ?L"
    using c1 contents_length[of rb1] by simp
  then have m: "min ?frames (EchoRingBuffer_GetAvailableRead rb1) = ?frames"
    using fr by (simp add: min_def word_le_nat_alt)
  have "unat ?frames \<le> length out"
    using fr assms(4) by simp
  from Read_contents[OF inv1 this] obtain rb2 where
    "EchoRingBuffer_Read rb1 out ?frames
       = Inr (rb2, concat chunks @ drop ?L out, ?frames)"
    using m fr c1 by auto
  with w show ?thesis
    by blast
qed

theorem write_then_read_round_trip_witness:
  "rb_inv \<lparr>buffer = [0, 0, 0, 0, 0], size_rb = 5, writeIndex = 3, readIndex = 3\<rparr> \<and>
   length (concat [[1, 2], [3, 4 :: Float32]]) \<le> unat (5 :: UInt32) - 1 \<and>
   length (concat [[1, 2], [3, 4 :: Float32]]) \<le> length [9, 9, 9, 9 :: Float32] \<and>
   write_chunks \<lparr>buffer = [0, 0, 0, 0, 0], size_rb = 5, writeIndex = 3, readIndex = 3\<rparr>
       [[1, 2], [3, 4]]
     = Inr (\<lparr>buffer = [3, 4, 0, 1, 2], size_rb = 5, writeIndex = 2, readIndex = 3\<rparr>, [2, 2]) \<and>
   EchoRingBuffer_Read \<lparr>buffer = [3, 4, 0, 1, 2], size_rb = 5, writeIndex = 2, readIndex = 3\<rparr>
       [9, 9, 9, 9] 4
     = Inr (\<lparr>buffer = [3, 4, 0, 1, 2], size_rb = 5, writeIndex = 2, readIndex = 2\<rparr>,
            [1, 2, 3, 4], 4)"
proof -
  let ?rb = "\<lparr>buffer = [0, 0, 0, 0, 0], size_rb = 5, writeIndex = 3, readIndex = 3\<rparr> :: RingBuffer"
  let ?rb1 = "\<lparr>buffer = [3, 4, 0, 1, 2], size_rb = 5, writeIndex = 2, readIndex = 3\<rparr> :: RingBuffer"
  have inv: "rb_inv ?rb"
    by (simp add: rb_inv_def)
  have e: "writeIndex ?rb = readIndex ?rb"
    by simp
  have l1: "length (concat [[1, 2], [3, 4 :: Float32]]) \<le> unat (size_rb ?rb) - 1"
    by simp
  have l2: "length (concat [[1, 2], [3, 4 :: Float32]]) \<le> length [9, 9, 9, 9 :: Float32]"
    by simp
  have w: "write_chunks ?rb [[1, 2], [3, 4]] = Inr (?rb1, [2, 2])"
    by code_simp
  have r: "EchoRingBuffer_Read ?rb1 [9, 9, 9, 9] 4
     = Inr (\<lparr>buffer = [3, 4, 0, 1, 2], size_rb = 5, writeIndex = 2, readIndex = 2\<rparr>,
            [1, 2, 3, 4], 4)"
    by code_simp
  from write_then_read_round_trip[OF inv e l1 l2] w
  have "\<exists>rb2. EchoRingBuffer_Read ?rb1 [9, 9, 9, 9] 4 = Inr (rb2, [1, 2, 3, 4], 4)"
    by simp
  with inv l1 l2 w r show ?thesis
    by simp
qed

section \<open>Claims about the device\<close>

text \<open>
  Claim C6. StartIO sets \<open>isRunning\<close> and stores the clock reading in
  \<open>anchorHostTime\<close>, whether or not the device was running. GetZeroTimeStamp returns
  sample time 0, the stored anchor and seed 1 in every state. Hence after a StartIO
  that read \<open>now\<close>, and after any further calls none of which is a StartIO,
  GetZeroTimeStamp returns \<open>(0, now, 1)\<close>. Such a run does return a state when the ring
  buffer satisfies the cursor invariant and every call passes arrays as long as its
  counts demand.
\<close>

theorem zero_timestamp_reports_last_start:
  assumes "list_all (\<lambda>c. \<not> is_StartIO c) calls"
  shows "EchoDevice_StartIO dev now =
           (dev\<lparr>isRunning := True, anchorHostTime := now\<rparr>, kAudioHardwareNoError) \<and>
         EchoDevice_GetZeroTimeStamp dev = (0, anchorHostTime dev, 1, kAudioHardwareNoError) \<and>
         (\<forall>dev'. io_run (fst (EchoDevice_StartIO dev now)) calls = Inr dev' \<longrightarrow>
            EchoDevice_GetZeroTimeStamp dev' = (0, now, 1, kAudioHardwareNoError)) \<and>
         (rb_inv (ringBuffer dev) \<and> list_all (io_call_ok (channels dev)) calls \<longrightarrow>
            (\<exists>dev'. io_run (fst (EchoDevice_StartIO dev now)) calls = Inr dev'))"
proof (intro conjI allI impI)
  show "EchoDevice_StartIO dev now =
           (dev\<lparr>isRunning := True, anchorHostTime := now\<rparr>, kAudioHardwareNoError)"
    by (simp add: EchoDevice_StartIO_def)
  show "EchoDevice_GetZeroTimeStamp dev = (0, anchorHostTime dev, 1, kAudioHardwareNoError)"
    by (simp add: EchoDevice_GetZeroTimeStamp_def)
next
  fix dev' assume "io_run (fst (EchoDevice_StartIO dev now)) calls = Inr dev'"
  with assms have "anchorHostTime dev' = anchorHostTime (fst (EchoDevice_StartIO dev now))"
    by (rule io_run_anchor)
  then show "EchoDevice_GetZeroTimeStamp dev' = (0, now, 1, kAudioHardwareNoError)"
    by (simp add: EchoDevice_StartIO_def EchoDevice_GetZeroTimeStamp_def)
next
  assume "rb_inv (ringBuffer dev) \<and> list_all (io_call_ok (channels dev)) calls"
  then show "\<exists>dev'. io_run (fst (EchoDevice_StartIO dev now)) calls = Inr dev'"
    by (intro io_run_returns) (simp_all add: EchoDevice_StartIO_def)
qed

theorem zero_timestamp_reports_last_start_witness:
  "list_all (\<lambda>c. \<not> is_StartIO c)
     [InjectSamples [1, 2] 2, GetZeroTimeStamp,
      DoIOOperation kAudioServerPlugInIOOperationReadInput 1 [9, 9], StopIO] \<and>
   rb_inv \<lparr>buffer = [0, 0, 0, 0], size_rb = 4, writeIndex = 0, readIndex = 0\<rparr> \<and>
   list_all (io_call_ok 2)
     [InjectSamples [1, 2] 2, GetZeroTimeStamp,
      DoIOOperation kAudioServerPlugInIOOperationReadInput 1 [9, 9], StopIO] \<and>
   io_run (fst (EchoDevice_StartIO
       \<lparr>objectID = 1000, inputStreamID = 0, outputStreamID = 0, sampleRate = 0x40E7700000000000,
        channels = 2,
        ringBuffer = \<lparr>buffer = [0, 0, 0, 0], size_rb = 4, writeIndex = 0, readIndex = 0\<rparr>,
        isRunning = True, hostTicksPerFrame = 20833, anchorHostTime = 5\<rparr> 77))
     [InjectSamples [1, 2] 2, GetZeroTimeStamp,
      DoIOOperation kAudioServerPlugInIOOperationReadInput 1 [9, 9], StopIO]
     = Inr \<lparr>objectID = 1000, inputStreamID = 0, outputStreamID = 0,
        sampleRate = 0x40E7700000000000, channels = 2,
        ringBuffer = \<lparr>buffer = [1, 2, 0, 0], size_rb = 4, writeIndex = 2, readIndex = 2\<rparr>,
        isRunning = False, hostTicksPerFrame = 20833, anchorHostTime = 77\<rparr> \<and>
   EchoDevice_GetZeroTimeStamp
       \<lparr>objectID = 1000, inputStreamID = 0, outputStreamID = 0,
        sampleRate = 0x40E7700000000000, channels = 2,
        ringBuffer = \<lparr>buffer = [1, 2, 0, 0], size_rb = 4, writeIndex = 2, readIndex = 2\<rparr>,
        isRunning = False, hostTicksPerFrame = 20833, anchorHostTime = 77\<rparr>
     = (0, 77, 1, 0)"
proof -
  let ?calls = "[InjectSamples [1, 2] 2, GetZeroTimeStamp,
      DoIOOperation kAudioServerPlugInIOOperationReadInput 1 [9, 9], StopIO]"
  let ?dev = "\<lparr>objectID = 1000, inputStreamID = 0, outputStreamID = 0,
        sampleRate = 0x40E7700000000000, channels = 2,
        ringBuffer = \<lparr>buffer = [0, 0, 0, 0], size_rb = 4, writeIndex = 0, readIndex = 0\<rparr>,
        isRunning = True, hostTicksPerFrame = 20833, anchorHostTime = 5\<rparr> :: EchoDevice"
  let ?dev' = "\<lparr>objectID = 1000, inputStreamID = 0, outputStreamID = 0,
        sampleRate = 0x40E7700000000000, channels = 2,
        ringBuffer = \<lparr>buffer = [1, 2, 0, 0], size_rb = 4, writeIndex = 2, readIndex = 2\<rparr>,
        isRunning = False, hostTicksPerFrame = 20833, anchorHostTime = 77\<rparr> :: EchoDevice"
  have no: "list_all (\<lambda>c. \<not> is_StartIO c) ?calls"
    by simp
  have run: "io_run (fst (EchoDevice_StartIO ?dev 77)) ?calls = Inr ?dev'"
    by code_simp
  have inv: "rb_inv (ringBuffer ?dev)"
    by (simp add: rb_inv_def)
  have ok: "list_all (io_call_ok (channels ?dev)) ?calls"
    by simp
  from zero_timestamp_reports_last_start[OF no, of ?dev 77] run
  have "EchoDevice_GetZeroTimeStamp ?dev' = (0, 77, 1, kAudioHardwareNoError)"
    by blast
  with no inv ok run show ?thesis
    by (simp add: kAudioHardwareNoError_def)
qed

text \<open>
  Claim C7. For the read-input operation, DoIOOperation passes
  \<open>ioBufferFrameSize * channels\<close> to Read as the count. The product is the
  \<open>UInt32\<close> product of the source; it is the product of the two numbers whenever
  that is below \<open>2 ^ 32\<close>. With a ring buffer that satisfies the cursor invariant
  and a host array of at least that many slots, the call returns
  \<open>kAudioHardwareNoError\<close> and the first \<open>ioBufferFrameSize * channels\<close> slots of the
  host array hold the oldest buffered samples followed by zeros.
\<close>

theorem pull_requests_frames_times_channels:
  assumes "rb_inv (ringBuffer dev)"
    and "unat (ioBufferFrameSize * channels dev) \<le> length ioMainBuffer"
  shows "\<exists>rb' buffer' n.
           EchoRingBuffer_Read (ringBuffer dev) ioMainBuffer (ioBufferFrameSize * channels dev)
             = Inr (rb', buffer', n) \<and>
           EchoDevice_DoIOOperation dev kAudioServerPlugInIOOperationReadInput
               ioBufferFrameSize ioMainBuffer
             = Inr (dev\<lparr>ringBuffer := rb'\<rparr>, buffer', kAudioHardwareNoError) \<and>
           n = min (ioBufferFrameSize * channels dev)
                 (EchoRingBuffer_GetAvailableRead (ringBuffer dev)) \<and>
           buffer' = take (unat n) (ring_contents (ringBuffer dev))
                     @ replicate (unat (ioBufferFrameSize * channels dev) - unat n) 0
                     @ drop (unat (ioBufferFrameSize * channels dev)) ioMainBuffer \<and>
           (unat ioBufferFrameSize * unat (channels dev) < 2 ^ 32 \<longrightarrow>
              unat (ioBufferFrameSize * channels dev)
                = unat ioBufferFrameSize * unat (channels dev))"
proof -
  from Read_contents[OF assms] obtain rb' buffer' where
    "EchoRingBuffer_Read (ringBuffer dev) ioMainBuffer (ioBufferFrameSize * channels dev)
       = Inr (rb', buffer', min (ioBufferFrameSize * channels dev)
                              (EchoRingBuffer_GetAvailableRead (ringBuffer dev)))"
    and "buffer' =
           take (unat (min (ioBufferFrameSize * channels dev)
                         (EchoRingBuffer_GetAvailableRead (ringBuffer dev))))
             (ring_contents (ringBuffer dev))
           @ replicate (unat (ioBufferFrameSize * channels dev)
                        - unat (min (ioBufferFrameSize * channels dev)
                                  (EchoRingBuffer_GetAvailableRead (ringBuffer dev)))) 0
           @ drop (unat (ioBufferFrameSize * channels dev)) ioMainBuffer"
    by blast
  moreover have "unat ioBufferFrameSize * unat (channels dev) < 2 ^ 32 \<longrightarrow>
              unat (ioBufferFrameSize * channels dev)
                = unat ioBufferFrameSize * unat (channels dev)"
    using unat_mult_lem[of ioBufferFrameSize "channels dev"] by simp
  ultimately show ?thesis
    by (simp add: EchoDevice_DoIOOperation_def)
qed

theorem pull_requests_frames_times_channels_witness:
  "rb_inv \<lparr>buffer = [1, 2, 3, 0, 0, 0], size_rb = 6, writeIndex = 3, readIndex = 0\<rparr> \<and>
   unat ((2 :: UInt32) * 2) \<le> length [9, 9, 9, 9, 9 :: Float32] \<and>
   unat (2 :: UInt32) * unat (2 :: UInt32) < 2 ^ 32 \<and>
   unat ((2 :: UInt32) * 2) = 4 \<and>
   EchoDevice_DoIOOperation
       \<lparr>objectID = 1000, inputStreamID = 0, outputStreamID = 0,
        sampleRate = 0x40E7700000000000, channels = 2,
        ringBuffer = \<lparr>buffer = [1, 2, 3, 0, 0, 0], size_rb = 6, writeIndex = 3, readIndex = 0\<rparr>,
        isRunning = True, hostTicksPerFrame = 20833, anchorHostTime = 77\<rparr>
       kAudioServerPlugInIOOperationReadInput 2 [9, 9, 9, 9, 9]
     = Inr (\<lparr>objectID = 1000, inputStreamID = 0, outputStreamID = 0,
        sampleRate = 0x40E7700000000000, channels = 2,
        ringBuffer = \<lparr>buffer = [1, 2, 3, 0, 0, 0], size_rb = 6, writeIndex = 3, readIndex = 3\<rparr>,
        isRunning = True, hostTicksPerFrame = 20833, anchorHostTime = 77\<rparr>,
        [1, 2, 3, 0, 9], 0)"
proof -
  let ?rb = "\<lparr>buffer = [1, 2, 3, 0, 0, 0], size_rb = 6, writeIndex = 3, readIndex = 0\<rparr> :: RingBuffer"
  let ?dev = "\<lparr>objectID = 1000, inputStreamID = 0, outputStreamID = 0,
        sampleRate = 0x40E7700000000000, channels = 2,
        ringBuffer = ?rb,
        isRunning = True, hostTicksPerFrame = 20833, anchorHostTime = 77\<rparr> :: EchoDevice"
  have inv: "rb_inv (ringBuffer ?dev)"
    by (simp add: rb_inv_def)
  have len: "unat ((2 :: UInt32) * channels ?dev) \<le> length [9, 9, 9, 9, 9 :: Float32]"
    by simp
  have rd: "EchoRingBuffer_Read ?rb [9, 9, 9, 9, 9] 4
     = Inr (\<lparr>buffer = [1, 2, 3, 0, 0, 0], size_rb = 6, writeIndex = 3, readIndex = 3\<rparr>,
            [1, 2, 3, 0, 9], 3)"
    by code_simp
  from pull_requests_frames_times_channels[OF inv len] rd
  have "EchoDevice_DoIOOperation ?dev kAudioServerPlugInIOOperationReadInput 2 [9, 9, 9, 9, 9]
     = Inr (?dev\<lparr>ringBuffer :=
              \<lparr>buffer = [1, 2, 3, 0, 0, 0], size_rb = 6, writeIndex = 3, readIndex = 3\<rparr>\<rparr>,
            [1, 2, 3, 0, 9], kAudioHardwareNoError)"
    by auto
  moreover have "unat (2 :: UInt32) * unat (2 :: UInt32) < 2 ^ 32"
    by simp
  ultimately show ?thesis
    using inv len by (simp add: kAudioHardwareNoError_def)
qed

text \<open>
  Claim C8. StopIO clears \<open>isRunning\<close> and changes no other field: the ring buffer
  with its storage, cursors and capacity, the anchor, the sample rate and the channel
  count are as before, so the buffered samples are the same and a Read after the stop
  gives what it would have given before.
\<close>

theorem stop_changes_only_the_running_flag:
  "EchoDevice_StopIO dev = (dev\<lparr>isRunning := False\<rparr>, kAudioHardwareNoError) \<and>
   isRunning (fst (EchoDevice_StopIO dev)) = False \<and>
   ringBuffer (fst (EchoDevice_StopIO dev)) = ringBuffer dev \<and>
   anchorHostTime (fst (EchoDevice_StopIO dev)) = anchorHostTime dev \<and>
   sampleRate (fst (EchoDevice_StopIO dev)) = sampleRate dev \<and>
   channels (fst (EchoDevice_StopIO dev)) = channels dev \<and>
   hostTicksPerFrame (fst (EchoDevice_StopIO dev)) = hostTicksPerFrame dev \<and>
   objectID (fst (EchoDevice_StopIO dev)) = objectID dev \<and>
   inputStreamID (fst (EchoDevice_StopIO dev)) = inputStreamID dev \<and>
   outputStreamID (fst (EchoDevice_StopIO dev)) = outputStreamID dev \<and>
   ring_contents (ringBuffer (fst (EchoDevice_StopIO dev))) = ring_contents (ringBuffer dev) \<and>
   EchoRingBuffer_Read (ringBuffer (fst (EchoDevice_StopIO dev))) data frames
     = EchoRingBuffer_Read (ringBuffer dev) data frames"
  by (simp add: EchoDevice_StopIO_def)

text \<open>
  Claim C10. DoIOOperation does not read \<open>isRunning\<close>: on two devices that differ
  in that flag only it gives the same fault or the same host array and status, and
  successor devices that again differ in the flag only. In particular it reads and
  zero-fills while the device is stopped as it does while it is running.
\<close>

theorem pull_ignores_running_flag:
  "EchoDevice_DoIOOperation (dev\<lparr>isRunning := b\<rparr>) operationID n ioMainBuffer
     = (case EchoDevice_DoIOOperation dev operationID n ioMainBuffer of
          Inl e \<Rightarrow> Inl e
        | Inr (dev', buffer', st) \<Rightarrow> Inr (dev'\<lparr>isRunning := b\<rparr>, buffer', st))"
  by (simp add: EchoDevice_DoIOOperation_def split: sum.splits prod.splits)

section \<open>The two plug-ins\<close>

text \<open>
  Claim C9. On every buffer state and every input the ring-buffer functions of
  EngramHalPlugin.cpp give the results and the successor states of those of
  EchoHalPlugin.cpp.
\<close>

theorem Engram_ring_buffer_equals_Echo:
  "EngramRingBuffer_Init mem sz = EchoRingBuffer_Init mem sz \<and>
   EngramRingBuffer_GetAvailableRead rb = EchoRingBuffer_GetAvailableRead rb \<and>
   EngramRingBuffer_GetAvailableWrite rb = EchoRingBuffer_GetAvailableWrite rb \<and>
   EngramRingBuffer_Write rb data frames = EchoRingBuffer_Write rb data frames \<and>
   EngramRingBuffer_Read rb data frames = EchoRingBuffer_Read rb data frames"
  by (simp add: EngramRingBuffer_Init_def EchoRingBuffer_Init_def
        Engram_GetAvailableRead Engram_GetAvailableWrite
        EngramRingBuffer_Write_def EchoRingBuffer_Write_def Engram_Write_loop
        EngramRingBuffer_Read_def EchoRingBuffer_Read_def Engram_Read_loop
        Engram_Read_zero_fill Let_def split: sum.splits prod.splits)

end
